theory Spec2Isabelle
  imports Complex_Main
begin

section \<open>Graphs, edit costs and the assignment solver\<close>

text \<open>
  The sources under study are the headers \<^verbatim>\<open>MultiGed.h\<close>,
  \<^verbatim>\<open>IPFPGraphEditDistance.h\<close>, \<^verbatim>\<open>BipartiteGraphEditDistance.h\<close> and
  \<^verbatim>\<open>MultistartRefinementGraphEditDistance.h\<close>. C++ \<^verbatim>\<open>double\<close> is modelled by
  \<^typ>\<open>real\<close> (exact arithmetic), array indices and mapping entries by \<^typ>\<open>nat\<close>, the
  number of requested edit paths by \<^typ>\<open>int\<close> (it may be \<open>-1\<close>), and a C array by a list
  that is updated in place with \<open>xs[i := v]\<close>.
\<close>

text \<open>
  Modelled from the spec: the graph primitive (\<^verbatim>\<open>Graph\<close>, \<^verbatim>\<open>GNode\<close>, \<^verbatim>\<open>GEdge\<close>) is
  not among the sources. A graph is a vector of node attributes, one list of incident edges
  per node (the neighbour's index and the edge attribute), and a directedness flag.
  \<open>getEdge g i j\<close> is the first incident edge of node \<open>i\<close> that leads to \<open>j\<close>.
\<close>

record ('n, 'e) graph =
  nodes :: "'n list"
  adj :: "(nat \<times> 'e) list list"
  isDirected :: bool

definition Size :: "('n, 'e) graph \<Rightarrow> nat" where
  "Size g = length (nodes g)"

definition getIncidentEdges :: "('n, 'e) graph \<Rightarrow> nat \<Rightarrow> (nat \<times> 'e) list" where
  "getIncidentEdges g i = (if i < length (adj g) then adj g ! i else [])"

definition Degree :: "('n, 'e) graph \<Rightarrow> nat \<Rightarrow> nat" where
  "Degree g i = length (getIncidentEdges g i)"

definition getEdge :: "('n, 'e) graph \<Rightarrow> nat \<Rightarrow> nat \<Rightarrow> 'e option" where
  "getEdge g i j = map_of (getIncidentEdges g i) j"

text \<open>
  Modelled from the spec: the edit cost callback (\<^verbatim>\<open>EditDistanceCost\<close>) is not among
  the sources; it exposes six functions on node and edge attributes.
\<close>

record ('n, 'e) costs =
  NodeSubstitutionCost :: "'n \<Rightarrow> 'n \<Rightarrow> real"
  NodeDeletionCost :: "'n \<Rightarrow> real"
  NodeInsertionCost :: "'n \<Rightarrow> real"
  EdgeSubstitutionCost :: "'e \<Rightarrow> 'e \<Rightarrow> real"
  EdgeDeletionCost :: "'e \<Rightarrow> real"
  EdgeInsertionCost :: "'e \<Rightarrow> real"

text \<open>
  Modelled from the spec: the macro \<^verbatim>\<open>sub2ind\<close> of \<^verbatim>\<open>utils.h\<close> is not among the
  sources. The matrices are dense and are also read through Eigen maps, which are
  column-major, so cell \<open>(r, c)\<close> of a matrix with \<open>n\<close> rows is at \<open>c * n + r\<close>.
\<close>

definition sub2ind :: "nat \<Rightarrow> nat \<Rightarrow> nat \<Rightarrow> nat" where
  "sub2ind r c n = c * n + r"

text \<open>
  The LSAPE solver (\<^verbatim>\<open>hungarianLSAPE\<close>) is an external routine: it is a parameter of
  every function that calls it. Given a cost matrix with its numbers of rows and columns it
  returns the forward assignment, the reverse assignment and the dual potentials \<open>u\<close>, \<open>v\<close>.
\<close>

type_synonym lsape_solver = "real list \<Rightarrow> nat \<Rightarrow> nat \<Rightarrow> nat list \<times> nat list \<times> real list \<times> real list"

section \<open>MultiGed: seeds of the multistart\<close>

text \<open>\<^verbatim>\<open>MultiGed::computeCostMatrixLSAP\<close>: the \<open>(n+m) \<times> (n+m)\<close> lifting of \<open>C\<close>;
  \<open>-1\<close> marks a forbidden cell.\<close>

definition computeCostMatrixLSAP :: "real list \<Rightarrow> nat \<Rightarrow> nat \<Rightarrow> real list" where
  "computeCostMatrixLSAP C n m =
    (let A0 = fold (\<lambda>(j, i) A. A[sub2ind i j (n + m) := (if i \<ge> n \<and> j \<ge> m then 0 else - 1)])
                (List.product [0..<m + n] [0..<m + n]) (replicate ((n + m) * (n + m)) 0);
         A1 = fold (\<lambda>(i, j) A. A[sub2ind i j (n + m) := C ! sub2ind i j (n + 1)])
                (List.product [0..<n] [0..<m]) A0;
         A2 = fold (\<lambda>i A. A[sub2ind i (m + i) (n + m) := C ! sub2ind i m (n + 1)]) [0..<n] A1;
         A3 = fold (\<lambda>j A. A[sub2ind (n + j) j (n + m) := C ! sub2ind n j (n + 1)]) [0..<m] A2
     in A3)"

text \<open>The first loop of the LSAP solution built in \<^verbatim>\<open>getKOptimalMappings\<close>: the rows of
  \<open>G\<^sub>1\<close>. The state is \<open>(rhoperm, epsAssign)\<close>.\<close>

definition rhoperm_rows :: "nat \<Rightarrow> nat \<Rightarrow> nat list \<Rightarrow> nat list \<times> bool list" where
  "rhoperm_rows n m G1_to_G2 =
     fold (\<lambda>i (rho, eps).
            if G1_to_G2 ! i < m then (rho[i := G1_to_G2 ! i], eps)
            else (rho[i := i + m], eps[i := True]))
       [0..<n] (replicate (n + m) 0, replicate n False)"

text \<open>The inner \<^verbatim>\<open>while\<close> loop: advance to the first epsilon slot that is not assigned.\<close>

function firstEpsNonAssign :: "nat \<Rightarrow> bool list \<Rightarrow> nat \<Rightarrow> nat" where
  "firstEpsNonAssign n eps f = (if f < n \<and> eps ! f then firstEpsNonAssign n eps (Suc f) else f)"
  by pat_completeness auto
termination
  by (relation "measure (\<lambda>(n, eps, f). n - f)") auto

declare firstEpsNonAssign.simps [simp del]

text \<open>The second loop: the rows \<open>n + j\<close>. The state is \<open>(rhoperm, epsAssign,
  firstEpsNonAssign)\<close>; \<open>rhoperm_cols_step\<close> is the body of the loop. A write at index \<open>n\<close>
  of \<open>epsAssign\<close> would be out of bounds in the source; here it leaves the list as it is.\<close>

definition rhoperm_cols_step ::
  "nat \<Rightarrow> nat \<Rightarrow> nat list \<Rightarrow> nat \<Rightarrow> nat list \<times> bool list \<times> nat \<Rightarrow> nat list \<times> bool list \<times> nat" where
  "rhoperm_cols_step n m G2_to_G1 = (\<lambda>j (rho, eps, f).
            if G2_to_G1 ! j = n then (rho[j + n := j], eps, f)
            else (let f' = firstEpsNonAssign n eps f
                  in (rho[j + n := f' + m], eps[f' := True], f')))"

definition rhoperm_cols :: "nat \<Rightarrow> nat \<Rightarrow> nat list \<Rightarrow> nat list \<times> bool list \<Rightarrow> nat list" where
  "rhoperm_cols n m G2_to_G1 st =
     fst (fold (rhoperm_cols_step n m G2_to_G1) [0..<m] (fst st, snd st, 0))"

definition rhoperm :: "nat \<Rightarrow> nat \<Rightarrow> nat list \<Rightarrow> nat list \<Rightarrow> nat list" where
  "rhoperm n m G1_to_G2 G2_to_G1 = rhoperm_cols n m G2_to_G1 (rhoperm_rows n m G1_to_G2)"

text \<open>The LSAP duals: \<open>u\<close> and \<open>v\<close> without their epsilon entries, padded with zeros.\<close>

definition lsap_lu :: "nat \<Rightarrow> nat \<Rightarrow> real list \<Rightarrow> real list" where
  "lsap_lu n m u = fold (\<lambda>i l. l[i := 0]) [n..<n + m]
                     (fold (\<lambda>i l. l[i := u ! i]) [0..<n] (replicate (n + m) 0))"

definition lsap_lv :: "nat \<Rightarrow> nat \<Rightarrow> real list \<Rightarrow> real list" where
  "lsap_lv n m v = fold (\<lambda>j l. l[j := 0]) [m..<n + m]
                     (fold (\<lambda>j l. l[j := v ! j]) [0..<m] (replicate (n + m) 0))"

text \<open>
  The enumeration of perfect matchings (\<^verbatim>\<open>equalityDigraph\<close> followed by
  \<^verbatim>\<open>AllPerfectMatchingsEC::enumPerfectMatchings\<close>) is not among the sources: it is a
  parameter. It receives the lifted matrix, its size, the initial permutation, the lifted
  duals and the number \<open>k\<close> of matchings asked for.
\<close>

type_synonym matching_enumerator =
  "real list \<Rightarrow> nat \<Rightarrow> nat list \<Rightarrow> real list \<Rightarrow> real list \<Rightarrow> int \<Rightarrow> nat list list"

text \<open>\<^verbatim>\<open>MultiGed::getKOptimalMappings\<close>.\<close>

definition getKOptimalMappings ::
  "lsape_solver \<Rightarrow> matching_enumerator \<Rightarrow> ('n, 'e) graph \<Rightarrow> ('n, 'e) graph \<Rightarrow> real list \<Rightarrow> int
     \<Rightarrow> nat list list" where
  "getKOptimalMappings solver enum g1 g2 C k =
    (let n = Size g1; m = Size g2;
         Clsap = computeCostMatrixLSAP C n m;
         (G1_to_G2, G2_to_G1, u, v) = solver C (n + 1) (m + 1);
         rho = rhoperm n m G1_to_G2 G2_to_G1;
         lu = lsap_lu n m u;
         lv = lsap_lv n m v;
         mappings = enum Clsap (n + m) rho lu lv k
     in rho # mappings)"

text \<open>The decode loops of the drivers (the same text in \<^verbatim>\<open>MultiGed::computeOptimalMapping\<close>,
  \<^verbatim>\<open>getBestMappingFromSet\<close> and \<^verbatim>\<open>getBetterMappingsFromSet\<close>): from a permutation of
  \<open>n + m\<close> elements to the pair \<open>(local_G1_to_G2, local_G2_to_G1)\<close>, written into the two
  local arrays.\<close>

definition decode_mapping ::
  "nat \<Rightarrow> nat \<Rightarrow> nat list \<Rightarrow> nat list \<times> nat list \<Rightarrow> nat list \<times> nat list" where
  "decode_mapping n m lsapMapping loc =
    (let r1 = fold (\<lambda>j r. r[j := n]) [0..<m] (snd loc);
         (f2, r2) = fold (\<lambda>i (f, r).
                      if lsapMapping ! i \<ge> m then (f[i := m], r)
                      else (f[i := lsapMapping ! i], r[lsapMapping ! i := i]))
                    [0..<n] (fst loc, r1);
         r3 = fold (\<lambda>j r. if lsapMapping ! (n + j) < m then r[j := n] else r) [0..<m] r2
     in (f2, r3))"

text \<open>\<^verbatim>\<open>MultiGed::computeOptimalMapping\<close>: the minimum of \<^verbatim>\<open>GedFromMapping\<close> over the
  seeds. The distance object is a parameter (\<open>ged_of\<close> stands for its \<^verbatim>\<open>GedFromMapping\<close> on
  the two graphs). The state of the loop is \<open>(_ged, G1_to_G2, G2_to_G1, local arrays)\<close>; the
  result is the returned \<open>_ged\<close> with the two output arrays.\<close>

definition computeOptimalMapping_step ::
  "(nat list \<Rightarrow> nat list \<Rightarrow> real) \<Rightarrow> nat \<Rightarrow> nat \<Rightarrow> nat list
     \<Rightarrow> real \<times> nat list \<times> nat list \<times> (nat list \<times> nat list)
     \<Rightarrow> real \<times> nat list \<times> nat list \<times> (nat list \<times> nat list)" where
  "computeOptimalMapping_step ged_of n m lsapMapping st =
    (case st of (ged, G1_to_G2, G2_to_G1, loc) \<Rightarrow>
      (let loc' = decode_mapping n m lsapMapping loc;
           nged = ged_of (fst loc') (snd loc')
       in if ged > nged \<or> ged = - 1
          then (nged,
                fold (\<lambda>i G. G[i := fst loc' ! i]) [0..<n] G1_to_G2,
                fold (\<lambda>j G. G[j := snd loc' ! j]) [0..<m] G2_to_G1, loc')
          else (ged, G1_to_G2, G2_to_G1, loc')))"

definition computeOptimalMapping ::
  "lsape_solver \<Rightarrow> matching_enumerator \<Rightarrow> (nat list \<Rightarrow> nat list \<Rightarrow> real)
     \<Rightarrow> ('n, 'e) graph \<Rightarrow> ('n, 'e) graph \<Rightarrow> real list \<Rightarrow> int \<Rightarrow> nat list \<times> nat list
     \<Rightarrow> real \<times> nat list \<times> nat list" where
  "computeOptimalMapping solver enum ged_of g1 g2 C nep out =
    (let n = Size g1; m = Size g2;
         mappings = getKOptimalMappings solver enum g1 g2 C nep;
         (ged, G1_to_G2, G2_to_G1, loc) =
            fold (computeOptimalMapping_step ged_of n m) mappings
              (- 1, fst out, snd out, (replicate (n + 1) 0, replicate (m + 1) 0))
     in (ged, G1_to_G2, G2_to_G1))"


text \<open>A seed as the enumeration of the matchings of the lifted matrix produces it: a
  permutation of \<open>n + m\<close> elements in which a row \<open>n + j\<close> takes its own column \<open>j\<close> or an
  epsilon column (every other cell of the row is forbidden in \<^verbatim>\<open>_Clsap\<close>).\<close>

definition lsap_matching :: "nat \<Rightarrow> nat \<Rightarrow> nat list \<Rightarrow> bool" where
  "lsap_matching n m ls \<longleftrightarrow>
     length ls = n + m \<and> distinct ls \<and> (\<forall>x \<in> set ls. x < n + m) \<and>
     (\<forall>j<m. ls ! (n + j) < m \<longrightarrow> ls ! (n + j) = j)"

text \<open>The invariant of a mapping pair \<open>(fwd, rev)\<close> of the data model.\<close>

definition consistent_mapping :: "nat \<Rightarrow> nat \<Rightarrow> nat list \<Rightarrow> nat list \<Rightarrow> bool" where
  "consistent_mapping n m fwd rv \<longleftrightarrow>
     (\<forall>i<n. fwd ! i < m \<longrightarrow> rv ! (fwd ! i) = i) \<and>
     (\<forall>j<m. rv ! j < n \<longrightarrow> fwd ! (rv ! j) = j)"


text \<open>A mapping pair as the LSAPE solver returns it: entries up to epsilon, consistent.\<close>

definition lsape_mapping :: "nat \<Rightarrow> nat \<Rightarrow> nat list \<Rightarrow> nat list \<Rightarrow> bool" where
  "lsape_mapping n m fwd rv \<longleftrightarrow>
     n \<le> length fwd \<and> m \<le> length rv \<and> (\<forall>i<n. fwd ! i \<le> m) \<and> (\<forall>j<m. rv ! j \<le> n) \<and>
     consistent_mapping n m fwd rv"

text \<open>Cost callbacks that return non-negative values.\<close>

definition nonneg_costs :: "('n, 'e) costs \<Rightarrow> bool" where
  "nonneg_costs cf \<longleftrightarrow>
     (\<forall>a b. 0 \<le> NodeSubstitutionCost cf a b) \<and> (\<forall>a. 0 \<le> NodeDeletionCost cf a) \<and>
     (\<forall>a. 0 \<le> NodeInsertionCost cf a) \<and> (\<forall>a b. 0 \<le> EdgeSubstitutionCost cf a b) \<and>
     (\<forall>a. 0 \<le> EdgeDeletionCost cf a) \<and> (\<forall>a. 0 \<le> EdgeInsertionCost cf a)"

text \<open>
  Modelled from the spec: the contract of the LSAPE primitive, which is outside the
  sources. The solver is given an \<open>(n+1) \<times> (m+1)\<close> matrix; its assignment is a mapping pair
  of least cost (the cost of a mapping pair on a matrix is what \<^verbatim>\<open>linearCost\<close> computes:
  the cells \<open>(i, fwd[i])\<close> and the cells \<open>(n, j)\<close> of the inserted \<open>j\<close>), and the sum of the
  dual potentials it returns equals that cost.
\<close>

definition lsape_cost :: "real list \<Rightarrow> nat \<Rightarrow> nat \<Rightarrow> nat list \<Rightarrow> nat list \<Rightarrow> real" where
  "lsape_cost C n m fwd rv =
     (\<Sum>i\<leftarrow>[0..<n]. C ! sub2ind i (fwd ! i) (n + 1)) +
     (\<Sum>j\<leftarrow>[0..<m]. if rv ! j \<ge> n then C ! sub2ind (rv ! j) j (n + 1) else 0)"

definition lsape_optimal :: "real list \<Rightarrow> nat \<Rightarrow> nat \<Rightarrow> nat list \<Rightarrow> nat list \<Rightarrow> bool" where
  "lsape_optimal C n m fwd rv \<longleftrightarrow>
     lsape_mapping n m fwd rv \<and>
     (\<forall>f r. lsape_mapping n m f r \<longrightarrow> lsape_cost C n m fwd rv \<le> lsape_cost C n m f r)"

definition lsape_solves :: "lsape_solver \<Rightarrow> real list \<Rightarrow> nat \<Rightarrow> nat \<Rightarrow> bool" where
  "lsape_solves solver C n m \<longleftrightarrow>
     (case solver C (n + 1) (m + 1) of (rho, varrho, u, v) \<Rightarrow>
        lsape_optimal C n m rho varrho \<and>
        (\<Sum>a\<leftarrow>[0..<n + 1]. u ! a) + (\<Sum>b\<leftarrow>[0..<m + 1]. v ! b) = lsape_cost C n m rho varrho)"

text \<open>The shape shared by the matrices with an epsilon row and an epsilon column: an
  \<open>n \<times> m\<close> block, a last column, a last row and a corner set to \<open>0\<close>, written in this order
  into a zeroed array.\<close>

definition bordered :: "nat \<Rightarrow> nat \<Rightarrow> (nat \<Rightarrow> nat \<Rightarrow> real) \<Rightarrow> (nat \<Rightarrow> real) \<Rightarrow> (nat \<Rightarrow> real) \<Rightarrow> real list" where
  "bordered n m sb dl ins =
     (fold (\<lambda>j A. A[sub2ind n j (n + 1) := ins j]) [0..<m]
        (fold (\<lambda>i A. A[sub2ind i m (n + 1) := dl i]) [0..<n]
           (fold (\<lambda>(i, j) A. A[sub2ind i j (n + 1) := sb i j]) (List.product [0..<n] [0..<m])
              (replicate ((n + 1) * (m + 1)) 0))))[sub2ind n m (n + 1) := 0]"


text \<open>Graphs as the graph primitive keeps them: the incident edges of a node lead to nodes
  of the graph; in a simple graph they lead to distinct nodes, none to the node itself.\<close>

definition wf_graph :: "('n, 'e) graph \<Rightarrow> bool" where
  "wf_graph g \<longleftrightarrow> (\<forall>i<Size g. \<forall>(j, e)\<in>set (getIncidentEdges g i). j < Size g)"

definition simple_graph :: "('n, 'e) graph \<Rightarrow> bool" where
  "simple_graph g \<longleftrightarrow>
     wf_graph g \<and>
     (\<forall>i<Size g. distinct (map fst (getIncidentEdges g i)) \<and>
                   (\<forall>(j, e)\<in>set (getIncidentEdges g i). j \<noteq> i))"

text \<open>The epsilon slots of the LSAP lifting that the rows of \<open>G\<^sub>1\<close> leave free (the slot \<open>i\<close> is
  taken when \<open>i\<close> is deleted), in increasing order, and the number of substituted columns
  before column \<open>j\<close>: they say which slot the row \<open>n + j\<close> of a substituted \<open>j\<close> receives.\<close>

definition free_slots :: "nat \<Rightarrow> nat \<Rightarrow> nat list \<Rightarrow> nat list" where
  "free_slots n m fwd = filter (\<lambda>i. fwd ! i < m) [0..<n]"

definition substituted_before :: "nat \<Rightarrow> nat list \<Rightarrow> nat \<Rightarrow> nat" where
  "substituted_before n rv j = length (filter (\<lambda>j'. rv ! j' \<noteq> n) [0..<j])"

section \<open>The cost of a mapping\<close>

text \<open>
  Modelled from the spec: \<^verbatim>\<open>GraphEditDistance::GedFromMapping\<close> is not among the
  sources. The spec says that it evaluates the edit distance from the mapping, accumulating
  node and edge substitution, deletion and insertion costs: a node of \<open>G\<^sub>1\<close> is substituted or
  deleted, a node of \<open>G\<^sub>2\<close> without preimage is inserted; an edge of \<open>G\<^sub>1\<close> is substituted when
  both its ends are mapped to the ends of an edge of \<open>G\<^sub>2\<close> and deleted otherwise; an edge of
  \<open>G\<^sub>2\<close> that is the image of no edge is inserted. An undirected edge stands in the incident
  lists of both its ends and is counted once.
\<close>

definition GedFromMapping ::
  "('n, 'e) costs \<Rightarrow> ('n, 'e) graph \<Rightarrow> ('n, 'e) graph \<Rightarrow> nat list \<Rightarrow> nat \<Rightarrow> nat list \<Rightarrow> nat \<Rightarrow> real" where
  "GedFromMapping cf g1 g2 G1_to_G2 n G2_to_G1 m =
    (let nodes1 = (\<Sum>i\<leftarrow>[0..<n].
                     if G1_to_G2 ! i \<ge> m then NodeDeletionCost cf (nodes g1 ! i)
                     else NodeSubstitutionCost cf (nodes g1 ! i) (nodes g2 ! (G1_to_G2 ! i)));
         nodes2 = (\<Sum>j\<leftarrow>[0..<m].
                     if G2_to_G1 ! j \<ge> n then NodeInsertionCost cf (nodes g2 ! j) else 0);
         edges1 = (\<Sum>i\<leftarrow>[0..<n]. \<Sum>(j, e1)\<leftarrow>getIncidentEdges g1 i.
                     if G1_to_G2 ! i < m \<and> G1_to_G2 ! j < m
                     then (case getEdge g2 (G1_to_G2 ! i) (G1_to_G2 ! j) of
                             Some e2 \<Rightarrow> EdgeSubstitutionCost cf e1 e2
                           | None \<Rightarrow> EdgeDeletionCost cf e1)
                     else EdgeDeletionCost cf e1);
         edges2 = (\<Sum>k\<leftarrow>[0..<m]. \<Sum>(l, e2)\<leftarrow>getIncidentEdges g2 k.
                     if G2_to_G1 ! k < n \<and> G2_to_G1 ! l < n
                        \<and> getEdge g1 (G2_to_G1 ! k) (G2_to_G1 ! l) \<noteq> None
                     then 0 else EdgeInsertionCost cf e2)
     in nodes1 + nodes2 + (if isDirected g1 then edges1 else edges1 / 2)
          + (if isDirected g2 then edges2 else edges2 / 2))"

section \<open>IPFPGraphEditDistance\<close>

text \<open>\<^verbatim>\<open>NodeCostMatrix\<close>: the node-only \<open>(n+1) \<times> (m+1)\<close> matrix \<open>C\<close>.\<close>

definition NodeCostMatrix :: "('n, 'e) costs \<Rightarrow> ('n, 'e) graph \<Rightarrow> ('n, 'e) graph \<Rightarrow> real list" where
  "NodeCostMatrix cf g1 g2 =
    (let n = Size g1; m = Size g2;
         C0 = (replicate ((n + 1) * (m + 1)) 0)[sub2ind n m (n + 1) := 0];
         C1 = fold (\<lambda>(i, j) C. C[sub2ind i j (n + 1) :=
                       NodeSubstitutionCost cf (nodes g1 ! i) (nodes g2 ! j)])
                (List.product [0..<n] [0..<m]) C0;
         C2 = fold (\<lambda>i C. C[sub2ind i m (n + 1) := NodeDeletionCost cf (nodes g1 ! i)]) [0..<n] C1;
         C3 = fold (\<lambda>j C. C[sub2ind n j (n + 1) := NodeInsertionCost cf (nodes g2 ! j)]) [0..<m] C2
     in C3)"

text \<open>The body of the innermost loop of \<^verbatim>\<open>QuadraticTerm\<close>: the cost that the pair of
  cells \<open>(i, k)\<close>, \<open>(j, l)\<close> adds per unit of \<open>x\<^sub>i\<^sub>k\<close>; \<open>0\<close> when the guard fails.\<close>

definition quadratic_cost ::
  "('n, 'e) costs \<Rightarrow> ('n, 'e) graph \<Rightarrow> ('n, 'e) graph \<Rightarrow> nat \<Rightarrow> nat \<Rightarrow> nat \<Rightarrow> nat \<Rightarrow> real" where
  "quadratic_cost cf g1 g2 i j k l =
    (let n = Size g1; m = Size g2;
         eps_i = (i \<ge> n); eps_j = (j \<ge> n); eps_k = (k \<ge> m); eps_l = (l \<ge> m)
     in if (i \<noteq> j \<or> eps_i) \<and> (k \<noteq> l \<or> eps_k)
        then (let e1 = (if \<not> eps_i \<and> \<not> eps_j then getEdge g1 i j else None);
                  e2 = (if \<not> eps_k \<and> \<not> eps_l then getEdge g2 k l else None)
              in case (e1, e2) of
                   (Some a, Some b) \<Rightarrow> EdgeSubstitutionCost cf a b
                 | (Some a, None) \<Rightarrow> EdgeDeletionCost cf a
                 | (None, Some b) \<Rightarrow> EdgeInsertionCost cf b
                 | (None, None) \<Rightarrow> 0)
        else 0)"

text \<open>\<^verbatim>\<open>QuadraticTerm\<close> on a list of weighted cells. \<open>directed\<close> is the field
  \<^verbatim>\<open>_directed\<close> of the object. The array is zeroed, and every cell \<open>(j, l)\<close> receives the
  accumulated sum, multiplied by \<open>0.5\<close> when \<open>_directed\<close> is false.\<close>

definition QuadraticTerm ::
  "bool \<Rightarrow> ('n, 'e) costs \<Rightarrow> ('n, 'e) graph \<Rightarrow> ('n, 'e) graph \<Rightarrow> ((nat \<times> nat) \<times> real) list \<Rightarrow> real list" where
  "QuadraticTerm directed cf g1 g2 mappings =
    (let n = Size g1; m = Size g2
     in fold (\<lambda>(j, l) Q. Q[sub2ind j l (n + 1) :=
                (let acc = (\<Sum>((i, k), v)\<leftarrow>mappings. quadratic_cost cf g1 g2 i j k l * v)
                 in if \<not> directed then acc * 0.5 else acc)])
          (List.product [0..<n + 1] [0..<m + 1]) (replicate ((n + 1) * (m + 1)) 0))"

text \<open>The overload on a matrix collects its positive cells, the overload on a mapping the
  cells of the mapping.\<close>

definition matrix_cells :: "nat \<Rightarrow> nat \<Rightarrow> real list \<Rightarrow> ((nat \<times> nat) \<times> real) list" where
  "matrix_cells n m Matrix =
     map (\<lambda>(i, j). ((i, j), Matrix ! sub2ind i j (n + 1)))
       (filter (\<lambda>(i, j). Matrix ! sub2ind i j (n + 1) > 0) (List.product [0..<n + 1] [0..<m + 1]))"

definition mapping_cells :: "nat \<Rightarrow> nat \<Rightarrow> nat list \<Rightarrow> nat list \<Rightarrow> ((nat \<times> nat) \<times> real) list" where
  "mapping_cells n m G1_to_G2 G2_to_G1 =
     map (\<lambda>i. ((i, G1_to_G2 ! i), 1)) [0..<n] @
     map (\<lambda>j. ((G2_to_G1 ! j, j), 1)) (filter (\<lambda>j. G2_to_G1 ! j \<ge> n) [0..<m])"

definition QuadraticTerm_matrix ::
  "bool \<Rightarrow> ('n, 'e) costs \<Rightarrow> ('n, 'e) graph \<Rightarrow> ('n, 'e) graph \<Rightarrow> real list \<Rightarrow> real list" where
  "QuadraticTerm_matrix directed cf g1 g2 Matrix =
     QuadraticTerm directed cf g1 g2 (matrix_cells (Size g1) (Size g2) Matrix)"

definition QuadraticTerm_mapping ::
  "bool \<Rightarrow> ('n, 'e) costs \<Rightarrow> ('n, 'e) graph \<Rightarrow> ('n, 'e) graph \<Rightarrow> nat list \<Rightarrow> nat list \<Rightarrow> real list" where
  "QuadraticTerm_mapping directed cf g1 g2 G1_to_G2 G2_to_G1 =
     QuadraticTerm directed cf g1 g2 (mapping_cells (Size g1) (Size g2) G1_to_G2 G2_to_G1)"

text \<open>\<^verbatim>\<open>linearCost\<close>: on a mapping (\<open>n\<close>, \<open>m\<close> are the sizes of the graphs) and on a matrix
  (\<open>n\<close>, \<open>m\<close> are the numbers of rows and columns).\<close>

definition linearCost_mapping :: "real list \<Rightarrow> nat list \<Rightarrow> nat list \<Rightarrow> nat \<Rightarrow> nat \<Rightarrow> real" where
  "linearCost_mapping CostMatrix G1_to_G2 G2_to_G1 n m =
     (\<Sum>i\<leftarrow>[0..<n]. CostMatrix ! sub2ind i (G1_to_G2 ! i) (n + 1)) +
     (\<Sum>j\<leftarrow>[0..<m]. if G2_to_G1 ! j \<ge> n then CostMatrix ! sub2ind (G2_to_G1 ! j) j (n + 1) else 0)"

definition linearCost_matrix :: "real list \<Rightarrow> real list \<Rightarrow> nat \<Rightarrow> nat \<Rightarrow> real" where
  "linearCost_matrix CostMatrix X n m =
     (\<Sum>i\<leftarrow>[0..<n]. \<Sum>j\<leftarrow>[0..<m]. CostMatrix ! sub2ind i j n * X ! sub2ind i j n)"

definition mappingsToMatrix :: "nat list \<Rightarrow> nat list \<Rightarrow> nat \<Rightarrow> nat \<Rightarrow> real list" where
  "mappingsToMatrix G1_to_G2 G2_to_G1 n m =
    (let M0 = replicate ((n + 1) * (m + 1)) 0;
         M1 = fold (\<lambda>i M. M[sub2ind i (G1_to_G2 ! i) (n + 1) := 1]) [0..<n] M0;
         M2 = fold (\<lambda>j M. if G2_to_G1 ! j \<ge> n then M[sub2ind (G2_to_G1 ! j) j (n + 1) := 1] else M)
                [0..<m] M1
     in M2)"

text \<open>The state of one run of \<^verbatim>\<open>IPFPalgorithm\<close>: the fields of the object that the loop
  reads and writes, and the local \<^verbatim>\<open>flag_continue\<close>.\<close>

record ipfp_state =
  Xk :: "real list"
  XkD :: "real list"
  bkp1 :: "real list"
  Cmat :: "real list"
  Lterm :: real
  oldLterm :: real
  S :: "real list"
  R :: "real list"
  k :: nat
  flag_continue :: bool

definition LinearSubProblem :: "ipfp_state \<Rightarrow> real list" where
  "LinearSubProblem st = map2 (\<lambda>x c. 2 * x + c) (XkD st) (Cmat st)"

definition getCost_matrix :: "ipfp_state \<Rightarrow> real list \<Rightarrow> nat \<Rightarrow> nat \<Rightarrow> real" where
  "getCost_matrix st Matrix n m = linearCost_matrix (XkD st) Matrix (n + 1) (m + 1) + Lterm st"

definition getCost :: "ipfp_state \<Rightarrow> nat list \<Rightarrow> nat list \<Rightarrow> nat \<Rightarrow> nat \<Rightarrow> real" where
  "getCost st G1_to_G2 G2_to_G1 n m = linearCost_mapping (XkD st) G1_to_G2 G2_to_G1 n m + Lterm st"

definition getAlpha :: "ipfp_state \<Rightarrow> real" where
  "getAlpha st = last (R st) - 2 * S st ! k st + oldLterm st"

definition getBeta :: "ipfp_state \<Rightarrow> real" where
  "getBeta st = last (S st) + S st ! k st - last (R st) - oldLterm st"

text \<open>The state before the loop of \<^verbatim>\<open>IPFPalgorithm\<close>, from the matrix \<open>Xk\<close> that
  \<^verbatim>\<open>getBetterMapping\<close> stored.\<close>

definition IPFP_init ::
  "('n, 'e) costs \<Rightarrow> ('n, 'e) graph \<Rightarrow> ('n, 'e) graph \<Rightarrow> real list \<Rightarrow> ipfp_state" where
  "IPFP_init cf g1 g2 X0 =
    (let directed = (isDirected g1 \<and> isDirected g2);
         n = Size g1; m = Size g2;
         C = NodeCostMatrix cf g1 g2;
         st0 = \<lparr>Xk = X0, XkD = QuadraticTerm_matrix directed cf g1 g2 X0,
                bkp1 = replicate ((n + 1) * (m + 1)) 0, Cmat = C,
                Lterm = linearCost_matrix C X0 (n + 1) (m + 1), oldLterm = 0,
                S = [], R = [], k = 0, flag_continue = True\<rparr>
     in st0\<lparr>S := [getCost_matrix st0 X0 n m]\<rparr>)"

text \<open>The first half of the body of the \<^verbatim>\<open>while\<close> loop: the gradient at \<open>Xk\<close>, the
  LSAPE on it, the binary matrix \<open>bkp1\<close> of its solution, the new entries of \<open>R\<close> and \<open>S\<close>
  and the new linear term.\<close>

definition IPFP_gradient_step ::
  "lsape_solver \<Rightarrow> ('n, 'e) costs \<Rightarrow> ('n, 'e) graph \<Rightarrow> ('n, 'e) graph \<Rightarrow> ipfp_state \<Rightarrow> ipfp_state" where
  "IPFP_gradient_step solver cf g1 g2 st =
    (let directed = (isDirected g1 \<and> isDirected g2);
         n = Size g1; m = Size g2;
         st1 = st\<lparr>XkD := QuadraticTerm_matrix directed cf g1 g2 (Xk st)\<rparr>;
         linearSubProblem = LinearSubProblem st1;
         (G1_to_G2, G2_to_G1, u, v) = solver linearSubProblem (n + 1) (m + 1);
         st2 = st1\<lparr>bkp1 := mappingsToMatrix G1_to_G2 G2_to_G1 n m,
                   R := R st1 @ [linearCost_mapping linearSubProblem G1_to_G2 G2_to_G1 n m]\<rparr>;
         st3 = st2\<lparr>oldLterm := Lterm st2\<rparr>;
         st4 = st3\<lparr>Lterm := linearCost_mapping (Cmat st3) G1_to_G2 G2_to_G1 n m\<rparr>;
         st5 = st4\<lparr>XkD := QuadraticTerm_mapping directed cf g1 g2 G1_to_G2 G2_to_G1\<rparr>
     in st5\<lparr>S := S st5 @ [getCost st5 G1_to_G2 G2_to_G1 n m]\<rparr>)"

text \<open>The second half: \<open>alpha\<close>, \<open>beta\<close>, the step \<open>t0\<close>, the test of convergence and the new
  \<open>Xk\<close>. \<open>epsilon\<close> is a field of the base class \<^verbatim>\<open>IPFPQAP\<close>, which is not among the
  sources: it is a parameter. \<open>n\<close> and \<open>m\<close> are the fields \<^verbatim>\<open>_n\<close> and \<^verbatim>\<open>_m\<close>.\<close>

definition IPFP_update :: "real \<Rightarrow> nat \<Rightarrow> nat \<Rightarrow> ipfp_state \<Rightarrow> ipfp_state" where
  "IPFP_update epsilon n m st =
    (let alpha = getAlpha st;
         beta = getBeta st;
         t0 = (if beta > 0.000001 then - alpha / (2 * beta) else 0);
         st7 = st\<lparr>flag_continue :=
                 (if last (R st) < 0.0001 then \<bar>alpha\<bar> > epsilon
                  else \<bar>alpha / last (R st)\<bar> > epsilon)\<rparr>;
         st8 = (if beta < 0.00001 \<or> t0 \<ge> 1
                then st7\<lparr>Xk := bkp1 st7\<rparr>
                else (let X' = map2 (\<lambda>x b. x + t0 * (b - x)) (Xk st7) (bkp1 st7);
                          st' = st7\<lparr>Xk := X',
                                    S := (S st7)[k st7 + 1 := S st7 ! k st7 - alpha ^ 2 / (4 * beta)]\<rparr>
                      in st'\<lparr>Lterm := linearCost_matrix (Cmat st') X' (n + 1) (m + 1)\<rparr>))
     in st8\<lparr>k := k st8 + 1\<rparr>)"

definition IPFP_iteration ::
  "lsape_solver \<Rightarrow> real \<Rightarrow> ('n, 'e) costs \<Rightarrow> ('n, 'e) graph \<Rightarrow> ('n, 'e) graph \<Rightarrow> ipfp_state \<Rightarrow> ipfp_state" where
  "IPFP_iteration solver epsilon cf g1 g2 st =
     IPFP_update epsilon (Size g1) (Size g2) (IPFP_gradient_step solver cf g1 g2 st)"

text \<open>The \<^verbatim>\<open>while\<close> loop; \<open>maxIter\<close> is a field of \<^verbatim>\<open>IPFPQAP\<close> as well.\<close>

function IPFP_loop ::
  "lsape_solver \<Rightarrow> nat \<Rightarrow> real \<Rightarrow> ('n, 'e) costs \<Rightarrow> ('n, 'e) graph \<Rightarrow> ('n, 'e) graph \<Rightarrow> ipfp_state \<Rightarrow> ipfp_state" where
  "IPFP_loop solver maxIter epsilon cf g1 g2 st =
     (if k st < maxIter \<and> flag_continue st
      then IPFP_loop solver maxIter epsilon cf g1 g2 (IPFP_iteration solver epsilon cf g1 g2 st)
      else st)"
  by pat_completeness auto
termination
  by (relation "measure (\<lambda>(solver, maxIter, epsilon, cf, g1, g2, st). maxIter - k st)")
    (auto simp: IPFP_iteration_def IPFP_update_def IPFP_gradient_step_def Let_def
       split: prod.splits)

declare IPFP_loop.simps [simp del]

definition IPFPalgorithm ::
  "lsape_solver \<Rightarrow> nat \<Rightarrow> real \<Rightarrow> ('n, 'e) costs \<Rightarrow> ('n, 'e) graph \<Rightarrow> ('n, 'e) graph \<Rightarrow> real list \<Rightarrow> ipfp_state" where
  "IPFPalgorithm solver maxIter epsilon cf g1 g2 X0 =
     IPFP_loop solver maxIter epsilon cf g1 g2 (IPFP_init cf g1 g2 X0)"

text \<open>\<^verbatim>\<open>getBetterMapping\<close>: the refinement of a mapping, and the final projection by a
  LSAPE on \<open>1 - Xk\<close>.\<close>

definition getBetterMapping ::
  "lsape_solver \<Rightarrow> nat \<Rightarrow> real \<Rightarrow> ('n, 'e) costs \<Rightarrow> ('n, 'e) graph \<Rightarrow> ('n, 'e) graph
     \<Rightarrow> nat list \<times> nat list \<Rightarrow> nat list \<times> nat list" where
  "getBetterMapping solver maxIter epsilon cf g1 g2 loc =
    (let n = Size g1; m = Size g2;
         X0 = mappingsToMatrix (fst loc) (snd loc) n m;
         st = IPFPalgorithm solver maxIter epsilon cf g1 g2 X0;
         (G1_to_G2, G2_to_G1, u, v) = solver (map (\<lambda>x. 1 - x) (Xk st)) (n + 1) (m + 1)
     in (G1_to_G2, G2_to_G1))"

definition mappingCost ::
  "('n, 'e) costs \<Rightarrow> ('n, 'e) graph \<Rightarrow> ('n, 'e) graph \<Rightarrow> nat list \<Rightarrow> nat list \<Rightarrow> real" where
  "mappingCost cf g1 g2 G1_to_G2 G2_to_G1 =
     GedFromMapping cf g1 g2 G1_to_G2 (Size g1) G2_to_G1 (Size g2)"


section \<open>BipartiteGraphEditDistance\<close>

text \<open>The local edge cost matrix that \<^verbatim>\<open>SubstitutionCost\<close> builds for the node \<open>i\<close> of \<open>G\<^sub>1\<close>
  and the node \<open>j\<close> of \<open>G\<^sub>2\<close>, from their lists of incident edges.\<close>

definition local_C :: "('n, 'e) costs \<Rightarrow> ('n, 'e) graph \<Rightarrow> ('n, 'e) graph \<Rightarrow> nat \<Rightarrow> nat \<Rightarrow> real list" where
  "local_C cf g1 g2 i j =
    (let n = Degree g1 i; m = Degree g2 j;
         es1 = getIncidentEdges g1 i; es2 = getIncidentEdges g2 j;
         L0 = replicate ((n + 1) * (m + 1)) 0;
         L1 = fold (\<lambda>(a, b) L. L[sub2ind a b (n + 1) :=
                       EdgeSubstitutionCost cf (snd (es1 ! a)) (snd (es2 ! b))])
                (List.product [0..<length es1] [0..<length es2]) L0;
         L2 = fold (\<lambda>a L. L[sub2ind a m (n + 1) := EdgeDeletionCost cf (snd (es1 ! a))])
                [0..<length es1] L1;
         L3 = fold (\<lambda>b L. L[sub2ind n b (n + 1) := EdgeInsertionCost cf (snd (es2 ! b))])
                [0..<length es2] L2
     in L3[sub2ind n m (n + 1) := 0])"

text \<open>\<^verbatim>\<open>SubstitutionCost\<close>: the sum of the dual potentials that the solver returns on the
  local matrix, plus the substitution cost of the two nodes.\<close>

definition SubstitutionCost ::
  "lsape_solver \<Rightarrow> ('n, 'e) costs \<Rightarrow> ('n, 'e) graph \<Rightarrow> ('n, 'e) graph \<Rightarrow> nat \<Rightarrow> nat \<Rightarrow> real" where
  "SubstitutionCost solver cf g1 g2 i j =
    (let n = Degree g1 i; m = Degree g2 j;
         (rho, varrho, u, v) = solver (local_C cf g1 g2 i j) (n + 1) (m + 1);
         cost = (\<Sum>a\<leftarrow>[0..<n + 1]. u ! a) + (\<Sum>b\<leftarrow>[0..<m + 1]. v ! b)
     in cost + NodeSubstitutionCost cf (nodes g1 ! i) (nodes g2 ! j))"

definition DeletionCost :: "('n, 'e) costs \<Rightarrow> ('n, 'e) graph \<Rightarrow> nat \<Rightarrow> real" where
  "DeletionCost cf g1 i =
     (\<Sum>a\<leftarrow>[0..<Degree g1 i]. EdgeDeletionCost cf (snd (getIncidentEdges g1 i ! a)))
       + NodeDeletionCost cf (nodes g1 ! i)"

definition InsertionCost :: "('n, 'e) costs \<Rightarrow> ('n, 'e) graph \<Rightarrow> nat \<Rightarrow> real" where
  "InsertionCost cf g2 j =
     (\<Sum>b\<leftarrow>[0..<Degree g2 j]. EdgeInsertionCost cf (snd (getIncidentEdges g2 j ! b)))
       + NodeInsertionCost cf (nodes g2 ! j)"

text \<open>\<^verbatim>\<open>computeCostMatrix\<close>: the star-augmented \<open>(n+1) \<times> (m+1)\<close> matrix.\<close>

definition computeCostMatrix ::
  "lsape_solver \<Rightarrow> ('n, 'e) costs \<Rightarrow> ('n, 'e) graph \<Rightarrow> ('n, 'e) graph \<Rightarrow> real list" where
  "computeCostMatrix solver cf g1 g2 =
    (let n = Size g1; m = Size g2;
         C0 = replicate ((n + 1) * (m + 1)) 0;
         C1 = fold (\<lambda>(i, j) C. C[sub2ind i j (n + 1) := SubstitutionCost solver cf g1 g2 i j])
                (List.product [0..<n] [0..<m]) C0;
         C2 = fold (\<lambda>i C. C[sub2ind i m (n + 1) := DeletionCost cf g1 i]) [0..<n] C1;
         C3 = fold (\<lambda>j C. C[sub2ind n j (n + 1) := InsertionCost cf g2 j]) [0..<m] C2
     in C3[sub2ind n m (n + 1) := 0])"

text \<open>
  \<^verbatim>\<open>BipartiteGraphEditDistance::getOptimalMapping\<close>: the LSAPE solution of the
  star-augmented matrix. The matrix is solved by the member \<^verbatim>\<open>my_solver\<close> of the object
  (set by the constructor or by \<^verbatim>\<open>setSolver\<close>), which need not be the \<^verbatim>\<open>hungarianLSAPE\<close>
  that \<^verbatim>\<open>SubstitutionCost\<close> calls on the local matrices: it is a parameter of its own. The
  field \<^verbatim>\<open>C\<close> of the object is \<open>None\<close> when it is \<^verbatim>\<open>NULL\<close>. The method deletes \<^verbatim>\<open>C\<close> and
  then calls \<^verbatim>\<open>computeCostMatrix\<close>, which deletes \<^verbatim>\<open>C\<close> again before it allocates: on an
  object whose \<^verbatim>\<open>C\<close> is not \<^verbatim>\<open>NULL\<close> (after a first call) the array is deleted twice, which
  is undefined behaviour, the result \<open>None\<close>. Otherwise the result is the mapping with the
  new value of the field.
\<close>

definition getOptimalMapping ::
  "lsape_solver \<Rightarrow> lsape_solver \<Rightarrow> ('n, 'e) costs \<Rightarrow> ('n, 'e) graph \<Rightarrow> ('n, 'e) graph
     \<Rightarrow> real list option \<Rightarrow> ((nat list \<times> nat list) \<times> real list) option" where
  "getOptimalMapping my_solver solver cf g1 g2 Cfield =
    (case Cfield of
       Some old \<Rightarrow> None
     | None \<Rightarrow>
        (let C = computeCostMatrix solver cf g1 g2;
             (G1_to_G2, G2_to_G1, u, v) = my_solver C (Size g1 + 1) (Size g2 + 1)
         in Some ((G1_to_G2, G2_to_G1), C)))"

section \<open>The range of a double\<close>

text \<open>
  Elsewhere a \<^verbatim>\<open>double\<close> is a real number: neither rounding nor overflow is modelled. The
  sums of \<^verbatim>\<open>DeletionCost\<close> and \<^verbatim>\<open>InsertionCost\<close> are modelled a second time with the range
  of a \<^verbatim>\<open>double\<close>: a value is finite, an infinity or not a number, and an addition of two
  finite values whose sum is at least \<open>2\<^sup>1\<^sup>0\<^sup>2\<^sup>4 - 2\<^sup>9\<^sup>7\<^sup>0\<close> in magnitude (half a unit in the last
  place above the largest finite \<^verbatim>\<open>double\<close>) gives an infinity. The rounding of a finite sum
  is left out.
\<close>

datatype double = Finite real | PlusInfinity | MinusInfinity | NaN

definition DBL_OVERFLOW :: real where
  "DBL_OVERFLOW = 2 ^ 1024 - 2 ^ 970"

fun dadd :: "double \<Rightarrow> double \<Rightarrow> double" where
  "dadd (Finite x) (Finite y) =
     (if x + y \<ge> DBL_OVERFLOW then PlusInfinity
      else if x + y \<le> - DBL_OVERFLOW then MinusInfinity
      else Finite (x + y))"
| "dadd NaN y = NaN"
| "dadd x NaN = NaN"
| "dadd PlusInfinity MinusInfinity = NaN"
| "dadd MinusInfinity PlusInfinity = NaN"
| "dadd PlusInfinity y = PlusInfinity"
| "dadd x PlusInfinity = PlusInfinity"
| "dadd MinusInfinity y = MinusInfinity"
| "dadd x MinusInfinity = MinusInfinity"

text \<open>\<^verbatim>\<open>DeletionCost\<close> and \<^verbatim>\<open>InsertionCost\<close> with the range of a \<^verbatim>\<open>double\<close>: the loop adds the
  edge costs to \<open>cost = 0.0\<close> and the node cost is added to the result. The callbacks return
  finite values.\<close>

definition DeletionCost_double :: "('n, 'e) costs \<Rightarrow> ('n, 'e) graph \<Rightarrow> nat \<Rightarrow> double" where
  "DeletionCost_double cf g1 i =
     dadd (fold (\<lambda>a cost. dadd cost (Finite (EdgeDeletionCost cf (snd (getIncidentEdges g1 i ! a)))))
             [0..<Degree g1 i] (Finite 0))
          (Finite (NodeDeletionCost cf (nodes g1 ! i)))"

definition InsertionCost_double :: "('n, 'e) costs \<Rightarrow> ('n, 'e) graph \<Rightarrow> nat \<Rightarrow> double" where
  "InsertionCost_double cf g2 j =
     dadd (fold (\<lambda>b cost. dadd cost (Finite (EdgeInsertionCost cf (snd (getIncidentEdges g2 j ! b)))))
             [0..<Degree g2 j] (Finite 0))
          (Finite (NodeInsertionCost cf (nodes g2 ! j)))"

section \<open>MultistartRefinementGraphEditDistance\<close>

text \<open>
  \<^verbatim>\<open>getBestMappingFromSet\<close>. The refinement method is an object of the abstract class
  \<^verbatim>\<open>MappingRefinement\<close>: its \<^verbatim>\<open>getBetterMapping\<close> and its \<^verbatim>\<open>mappingCost\<close> on the two
  graphs are the parameters \<open>refine\<close> and \<open>cost_of\<close>. The header has two bodies, chosen at
  compile time.
\<close>

text \<open>Without OpenMP: one loop; the state is \<open>(cost, G1_to_G2, G2_to_G1, local arrays)\<close> and
  the result the two output arrays.\<close>

definition getBestMappingFromSet_step ::
  "(nat list \<times> nat list \<Rightarrow> nat list \<times> nat list) \<Rightarrow> (nat list \<Rightarrow> nat list \<Rightarrow> real) \<Rightarrow> nat \<Rightarrow> nat
     \<Rightarrow> nat list \<Rightarrow> real \<times> nat list \<times> nat list \<times> (nat list \<times> nat list)
     \<Rightarrow> real \<times> nat list \<times> nat list \<times> (nat list \<times> nat list)" where
  "getBestMappingFromSet_step refine cost_of n m lsapMapping st =
    (case st of (cost, G1_to_G2, G2_to_G1, loc) \<Rightarrow>
      (let loc' = refine (decode_mapping n m lsapMapping loc);
           ncost = cost_of (fst loc') (snd loc')
       in if cost > ncost \<or> cost = - 1
          then (ncost,
                fold (\<lambda>i G. G[i := fst loc' ! i]) [0..<n] G1_to_G2,
                fold (\<lambda>j G. G[j := snd loc' ! j]) [0..<m] G2_to_G1, loc')
          else (cost, G1_to_G2, G2_to_G1, loc')))"

definition getBestMappingFromSet ::
  "(nat list \<times> nat list \<Rightarrow> nat list \<times> nat list) \<Rightarrow> (nat list \<Rightarrow> nat list \<Rightarrow> real) \<Rightarrow> nat \<Rightarrow> nat
     \<Rightarrow> nat list \<times> nat list \<Rightarrow> nat list list \<Rightarrow> nat list \<times> nat list" where
  "getBestMappingFromSet refine cost_of n m out mappings =
    (let (cost, G1_to_G2, G2_to_G1, loc) =
            fold (getBestMappingFromSet_step refine cost_of n m) mappings
              (- 1, fst out, snd out, (replicate (n + 1) 0, replicate (m + 1) 0))
     in (G1_to_G2, G2_to_G1))"

text \<open>The conversion of a \<^verbatim>\<open>double\<close> to an \<^verbatim>\<open>int\<close> truncates towards zero; the \<^verbatim>\<open>int\<close> has
  32 bits, and the conversion of a value whose truncation does not fit is undefined
  behaviour, the result \<open>None\<close>.\<close>

definition double_to_int :: "real \<Rightarrow> int option" where
  "double_to_int x =
    (let t = (if x \<ge> 0 then \<lfloor>x\<rfloor> else \<lceil>x\<rceil>)
     in if - 2147483648 \<le> t \<and> t \<le> 2147483647 then Some t else None)"

text \<open>
  With OpenMP: every seed is decoded into its own slice of the local arrays and refined by
  a clone of the method; its cost is stored in \<^verbatim>\<open>int* arrayCosts\<close>. A sequential loop then
  looks for the least stored cost. The slices are modelled by a list of pairs. The variable
  \<^verbatim>\<open>ncost\<close> is declared outside the parallel loop and shared by the threads; the model
  follows the executions in which every thread stores the cost that it computed itself (as
  with one thread). When a cost does not fit an \<^verbatim>\<open>int\<close>, or when the list of seeds is empty
  (\<^verbatim>\<open>i_optim\<close> is then read uninitialised), the result is \<open>None\<close>.
\<close>

definition getBestMappingFromSet_omp ::
  "(nat list \<times> nat list \<Rightarrow> nat list \<times> nat list) \<Rightarrow> (nat list \<Rightarrow> nat list \<Rightarrow> real) \<Rightarrow> nat \<Rightarrow> nat
     \<Rightarrow> nat list \<times> nat list \<Rightarrow> nat list list \<Rightarrow> (nat list \<times> nat list) option" where
  "getBestMappingFromSet_omp refine cost_of n m out mappings =
    (let arrayLocal = map (\<lambda>lsapMapping.
                        refine (decode_mapping n m lsapMapping
                                  (replicate (n + 1) 0, replicate (m + 1) 0))) mappings;
         stored = map (\<lambda>loc. double_to_int (cost_of (fst loc) (snd loc))) arrayLocal
     in if None \<in> set stored then None
        else
         (let arrayCosts = map the stored;
              (cost, i_optim) =
                fold (\<lambda>i (cost, i_optim).
                        if cost > real_of_int (arrayCosts ! i) \<or> cost = - 1
                        then (real_of_int (arrayCosts ! i), Some i) else (cost, i_optim))
                  [0..<length mappings] (- 1, None)
          in case i_optim of
               None \<Rightarrow> None
             | Some i \<Rightarrow> Some (fold (\<lambda>a G. G[a := fst (arrayLocal ! i) ! a]) [0..<n] (fst out),
                                fold (\<lambda>b G. G[b := snd (arrayLocal ! i) ! b]) [0..<m] (snd out))))"

section \<open>The driver operations\<close>

text \<open>
  Modelled from the spec: the classes that tie the pieces together
  (\<^verbatim>\<open>MappingGenerator\<close>, \<^verbatim>\<open>MultistartMappingRefinement\<close> and the multi-solution
  bipartite class) are not among the sources. The spec gives the operations:
  \<open>bipartiteGed\<close> is the LSAPE-only approximation with its cost (\<^verbatim>\<open>getOptimalMapping\<close> on a
  new object of the bipartite class, whose field \<^verbatim>\<open>C\<close> is \<^verbatim>\<open>NULL\<close>), and \<open>ged\<close> is the full
  pipeline: the seeds are the \<open>K\<close> best solutions on the star-augmented matrix, each is
  refined by IPFP, and the mapping of least cost is returned with its cost.
\<close>

definition bipartiteGed ::
  "lsape_solver \<Rightarrow> lsape_solver \<Rightarrow> ('n, 'e) costs \<Rightarrow> ('n, 'e) graph \<Rightarrow> ('n, 'e) graph
     \<Rightarrow> (real \<times> nat list \<times> nat list) option" where
  "bipartiteGed my_solver solver cf g1 g2 =
    (case getOptimalMapping my_solver solver cf g1 g2 None of
       None \<Rightarrow> None
     | Some ((G1_to_G2, G2_to_G1), C) \<Rightarrow>
         Some (mappingCost cf g1 g2 G1_to_G2 G2_to_G1, G1_to_G2, G2_to_G1))"

definition ged ::
  "lsape_solver \<Rightarrow> matching_enumerator \<Rightarrow> nat \<Rightarrow> real \<Rightarrow> ('n, 'e) costs
     \<Rightarrow> ('n, 'e) graph \<Rightarrow> ('n, 'e) graph \<Rightarrow> int \<Rightarrow> real \<times> nat list \<times> nat list" where
  "ged solver enum maxIter epsilon cf g1 g2 K =
    (let n = Size g1; m = Size g2;
         C = computeCostMatrix solver cf g1 g2;
         mappings = getKOptimalMappings solver enum g1 g2 C K;
         (G1_to_G2, G2_to_G1) =
            getBestMappingFromSet (getBetterMapping solver maxIter epsilon cf g1 g2)
              (mappingCost cf g1 g2) n m (replicate n 0, replicate m 0) mappings
     in (mappingCost cf g1 g2 G1_to_G2 G2_to_G1, G1_to_G2, G2_to_G1))"


section \<open>The enumeration of the optimal matchings\<close>

text \<open>
  Modelled from the spec: \<^verbatim>\<open>equalityDigraph\<close> and \<^verbatim>\<open>AllPerfectMatchingsEC\<close> are not among
  the sources. The spec says that the equality digraph has an arc between \<open>x\<close> and \<open>y\<close> iff
  \<open>C\<^sub>L[x,y] - u[x] - v[y] = 0\<close> (a forbidden cell, the sentinel \<open>-1\<close> of \<^verbatim>\<open>_Clsap\<close>, stands for
  \<open>+\<infinity>\<close> and gives no arc), and that the enumeration emits up to \<open>K\<close> distinct perfect
  matchings of it, none twice, all of them when fewer than \<open>K\<close> exist; \<open>K = -1\<close> asks for
  all. The order of emission is left open by the spec; here it is the order of
  \<open>List.n_lists\<close>.
\<close>

definition tight_cell :: "real list \<Rightarrow> nat \<Rightarrow> real list \<Rightarrow> real list \<Rightarrow> nat \<Rightarrow> nat \<Rightarrow> bool" where
  "tight_cell Clsap N lu lv x y \<longleftrightarrow>
     Clsap ! sub2ind x y N \<noteq> - 1 \<and> Clsap ! sub2ind x y N - lu ! x - lv ! y = 0"

definition equality_matching :: "real list \<Rightarrow> nat \<Rightarrow> real list \<Rightarrow> real list \<Rightarrow> nat list \<Rightarrow> bool" where
  "equality_matching Clsap N lu lv sigma \<longleftrightarrow>
     distinct sigma \<and> list_all (\<lambda>x. tight_cell Clsap N lu lv x (sigma ! x)) [0..<N]"

definition optimal_matchings :: "real list \<Rightarrow> nat \<Rightarrow> real list \<Rightarrow> real list \<Rightarrow> nat list list" where
  "optimal_matchings Clsap N lu lv = filter (equality_matching Clsap N lu lv) (List.n_lists N [0..<N])"

definition enumPerfectMatchings :: matching_enumerator where
  "enumPerfectMatchings Clsap N rho lu lv K =
     (if K = - 1 then optimal_matchings Clsap N lu lv
      else take (nat K) (optimal_matchings Clsap N lu lv))"

text \<open>The LSAP cost of a permutation on the lifted matrix.\<close>

definition lsap_cost :: "real list \<Rightarrow> nat \<Rightarrow> nat list \<Rightarrow> real" where
  "lsap_cost Clsap N sigma = (\<Sum>x\<leftarrow>[0..<N]. Clsap ! sub2ind x (sigma ! x) N)"

section \<open>A small instance\<close>

text \<open>
  Two graphs with two nodes labelled \<open>0\<close> and \<open>1\<close>; the first has the edge between its two
  nodes, the second has no edge. Costs are of the order of \<open>10\<^sup>-\<^sup>6\<close>: substituting two
  different node labels and inserting a node cost \<open>10\<^sup>-\<^sup>6\<close>, deleting an edge costs
  \<open>2 \<cdot> 10\<^sup>-\<^sup>6\<close>, everything else is free.
\<close>

definition ex_g1 :: "(nat, nat) graph" where
  "ex_g1 = \<lparr>nodes = [0, 1], adj = [[(1, 0)], [(0, 0)]], isDirected = False\<rparr>"

definition ex_g2 :: "(nat, nat) graph" where
  "ex_g2 = \<lparr>nodes = [0, 1], adj = [[], []], isDirected = False\<rparr>"

definition ex_cf :: "(nat, nat) costs" where
  "ex_cf = \<lparr>NodeSubstitutionCost = (\<lambda>a b. if a = b then 0 else 1 / 1000000),
            NodeDeletionCost = (\<lambda>a. 0),
            NodeInsertionCost = (\<lambda>a. 1 / 1000000),
            EdgeSubstitutionCost = (\<lambda>a b. 0),
            EdgeDeletionCost = (\<lambda>a. 2 / 1000000),
            EdgeInsertionCost = (\<lambda>a. 0)\<rparr>"

text \<open>
  The answers of a LSAPE solver on the four matrices that the pipeline builds on this
  instance (each has one optimal assignment, with the duals given): the local matrix of a
  pair of nodes, the star-augmented matrix, the gradient matrix at the first seed, and the
  matrix of the final projection.
\<close>

definition ex_solver :: lsape_solver where
  "ex_solver C n m =
    (if n = 2 \<and> m = 1 \<and> C = [2 / 1000000, 0] then ([0], [], [2 / 1000000, 0], [0])
     else if C = [2 / 1000000, 3 / 1000000, 1 / 1000000, 3 / 1000000, 2 / 1000000, 1 / 1000000,
                  2 / 1000000, 2 / 1000000, 0]
       then ([0, 1], [0, 1], [1 / 1000000, 1 / 1000000, 0], [1 / 1000000, 1 / 1000000, 0])
     else if C = [2 / 1000000, 1 / 1000000, 1 / 1000000, 1 / 1000000, 2 / 1000000, 1 / 1000000,
                  2 / 1000000, 2 / 1000000, 0]
       then ([1, 0], [1, 0], [0, 0, 0], [1 / 1000000, 1 / 1000000, 0])
     else if C = [1, 0, 1, 0, 1, 1, 1, 1, 1]
       then ([1, 0], [1, 0], [0, 0, 0], [0, 0, 0])
     else (replicate (n - 1) 0, replicate (m - 1) 0, replicate n 0, replicate m 0))"

text \<open>The state of IPFP on this instance before the loop, from the identity mapping, and
  after the first pass, which is also the last.\<close>

definition ex_st0 :: ipfp_state where
  "ex_st0 = \<lparr>Xk = [1, 0, 0, 0, 1, 0, 0, 0, 0],
     XkD = [1 / 1000000, 0, 0, 0, 1 / 1000000, 0, 1 / 1000000, 1 / 1000000, 0],
     bkp1 = [0, 0, 0, 0, 0, 0, 0, 0, 0],
     Cmat = [0, 1 / 1000000, 1 / 1000000, 1 / 1000000, 0, 1 / 1000000, 0, 0, 0],
     Lterm = 0, oldLterm = 0, S = [2 / 1000000], R = [], k = 0, flag_continue = True\<rparr>"

definition ex_st1 :: ipfp_state where
  "ex_st1 = \<lparr>Xk = [0, 1, 0, 1, 0, 0, 0, 0, 0],
     XkD = [0, 1 / 1000000, 0, 1 / 1000000, 0, 0, 1 / 1000000, 1 / 1000000, 0],
     bkp1 = [0, 1, 0, 1, 0, 0, 0, 0, 0],
     Cmat = [0, 1 / 1000000, 1 / 1000000, 1 / 1000000, 0, 1 / 1000000, 0, 0, 0],
     Lterm = 2 / 1000000, oldLterm = 0, S = [2 / 1000000, 4 / 1000000], R = [2 / 1000000],
     k = 1, flag_continue = False\<rparr>"

text \<open>An enumerator that finds no further matching.\<close>

definition ex_enum :: matching_enumerator where
  "ex_enum Clsap N rho lu lv K = []"

text \<open>The first graph taken as a directed graph (with both arcs between its two nodes).\<close>

definition ex_g1d :: "(nat, nat) graph" where
  "ex_g1d = ex_g1\<lparr>isDirected := True\<rparr>"

text \<open>Costs that are doubles with exact sums on the instance: substituting a node is
  free, inserting a node costs \<open>2.5 \<cdot> 10\<^sup>-\<^sup>6\<close> and deleting an edge \<open>5 \<cdot> 10\<^sup>-\<^sup>6\<close>; and the
  answer of a LSAPE solver on the gradient matrix at the identity mapping under these costs
  (its one optimal assignment swaps the two nodes, at cost \<open>0\<close>).\<close>

definition ex_cf2 :: "(nat, nat) costs" where
  "ex_cf2 = \<lparr>NodeSubstitutionCost = (\<lambda>a b. 0),
             NodeDeletionCost = (\<lambda>a. 0),
             NodeInsertionCost = (\<lambda>a. 1 / 400000),
             EdgeSubstitutionCost = (\<lambda>a b. 0),
             EdgeDeletionCost = (\<lambda>a. 1 / 200000),
             EdgeInsertionCost = (\<lambda>a. 0)\<rparr>"

definition ex_solver2 :: lsape_solver where
  "ex_solver2 C n m =
    (if C = [1 / 200000, 0, 1 / 400000, 0, 1 / 200000, 1 / 400000,
             1 / 200000, 1 / 200000, 0]
       then ([1, 0], [1, 0], [0, 0, 0], [0, 0, 0])
     else (replicate (n - 1) 0, replicate (m - 1) 0, replicate n 0, replicate m 0))"

text \<open>Two graphs of one node each, with different labels and no edge: substituting the
  node costs \<open>1.7\<close>, deleting or inserting it \<open>0.6\<close>.\<close>

definition ex_h1 :: "(nat, nat) graph" where
  "ex_h1 = \<lparr>nodes = [0], adj = [[]], isDirected = False\<rparr>"

definition ex_h2 :: "(nat, nat) graph" where
  "ex_h2 = \<lparr>nodes = [1], adj = [[]], isDirected = False\<rparr>"

definition ex_cf3 :: "(nat, nat) costs" where
  "ex_cf3 = \<lparr>NodeSubstitutionCost = (\<lambda>a b. if a = b then 0 else 17 / 10),
             NodeDeletionCost = (\<lambda>a. 6 / 10),
             NodeInsertionCost = (\<lambda>a. 6 / 10),
             EdgeSubstitutionCost = (\<lambda>a b. 0),
             EdgeDeletionCost = (\<lambda>a. 0),
             EdgeInsertionCost = (\<lambda>a. 0)\<rparr>"


text \<open>A directed graph of one node with a loop on it, and a directed graph of one node
  without edge; deleting an edge costs \<open>3\<close>, everything else is free.\<close>

definition ex_s1 :: "(nat, nat) graph" where
  "ex_s1 = \<lparr>nodes = [0], adj = [[(0, 0)]], isDirected = True\<rparr>"

definition ex_s2 :: "(nat, nat) graph" where
  "ex_s2 = \<lparr>nodes = [0], adj = [[]], isDirected = True\<rparr>"

definition ex_cf4 :: "(nat, nat) costs" where
  "ex_cf4 = \<lparr>NodeSubstitutionCost = (\<lambda>a b. 0),
             NodeDeletionCost = (\<lambda>a. 0),
             NodeInsertionCost = (\<lambda>a. 0),
             EdgeSubstitutionCost = (\<lambda>a b. 0),
             EdgeDeletionCost = (\<lambda>a. 3),
             EdgeInsertionCost = (\<lambda>a. 0)\<rparr>"

text \<open>A graph of three nodes without edges, and a solver answer on it and \<open>ex_g2\<close> that
  deletes node \<open>0\<close> of \<open>G\<^sub>1\<close> and maps the nodes \<open>1\<close> and \<open>2\<close> to the nodes \<open>0\<close> and \<open>1\<close> of
  \<open>G\<^sub>2\<close>.\<close>

definition ex_t1 :: "(nat, nat) graph" where
  "ex_t1 = \<lparr>nodes = [0, 1, 2], adj = [[], [], []], isDirected = False\<rparr>"

definition ex_solver3 :: lsape_solver where
  "ex_solver3 C n m = ([2, 0, 1], [1, 2], [0, 0, 0, 0], [0, 0, 0])"

text \<open>A second graph with an edge (its label differs from the one of the edge of
  \<open>ex_g1\<close>), unit costs with an edge substitution at \<open>3\<close>, and the answer of a LSAPE solver
  on the local matrix of a pair of nodes: deleting the edge and inserting the other one
  (cost \<open>2\<close>) is better than substituting it (cost \<open>3\<close>).\<close>

definition ex_g3 :: "(nat, nat) graph" where
  "ex_g3 = \<lparr>nodes = [0, 1], adj = [[(1, 1)], [(0, 1)]], isDirected = False\<rparr>"

definition ex_cf6 :: "(nat, nat) costs" where
  "ex_cf6 = \<lparr>NodeSubstitutionCost = (\<lambda>a b. if a = b then 0 else 1),
             NodeDeletionCost = (\<lambda>a. 1),
             NodeInsertionCost = (\<lambda>a. 1),
             EdgeSubstitutionCost = (\<lambda>a b. if a = b then 0 else 3),
             EdgeDeletionCost = (\<lambda>a. 1),
             EdgeInsertionCost = (\<lambda>a. 1)\<rparr>"

definition ex_solver6 :: lsape_solver where
  "ex_solver6 C n m =
    (if C = [3, 1, 1, 0] then ([1], [1], [1, 0], [1, 0])
     else (replicate (n - 1) 0, replicate (m - 1) 0, replicate n 0, replicate m 0))"

text \<open>Costs at the top of the range of a \<^verbatim>\<open>double\<close>: deleting a node or an edge costs
  \<open>10\<^sup>3\<^sup>0\<^sup>8\<close>.\<close>

definition ex_cf7 :: "(nat, nat) costs" where
  "ex_cf7 = \<lparr>NodeSubstitutionCost = (\<lambda>a b. 0),
             NodeDeletionCost = (\<lambda>a. 10 ^ 308),
             NodeInsertionCost = (\<lambda>a. 0),
             EdgeSubstitutionCost = (\<lambda>a b. 0),
             EdgeDeletionCost = (\<lambda>a. 10 ^ 308),
             EdgeInsertionCost = (\<lambda>a. 0)\<rparr>"

definition ex_solver7 :: lsape_solver where
  "ex_solver7 C n m =
    (if C = [10 ^ 308, 0] then ([0], [], [10 ^ 308, 0], [0])
     else (replicate (n - 1) 0, replicate (m - 1) 0, replicate n 0, replicate m 0))"

section \<open>Loops that fill an array\<close>


lemma length_fold_upd [simp]:
  "length (fold (\<lambda>i A. A[f i := g i]) is A) = length A"
  by (induction "is" arbitrary: A) auto

lemma length_fold_cupd [simp]:
  "length (fold (\<lambda>i A. if c i then A[f i := g i] else A) is A) = length A"
  by (induction "is" arbitrary: A) auto

lemma fold_cupd_miss:
  "(\<And>i. i \<in> set is \<Longrightarrow> c i \<Longrightarrow> f i \<noteq> p) \<Longrightarrow>
   fold (\<lambda>i A. if c i then A[f i := g i] else A) is A ! p = A ! p"
  by (induction "is" arbitrary: A) auto

lemma fold_cupd_hit:
  assumes "i \<in> set is" "c i" "f i < length A"
    and "\<And>i'. i' \<in> set is \<Longrightarrow> c i' \<Longrightarrow> f i' = f i \<Longrightarrow> i' = i"
  shows "fold (\<lambda>i A. if c i then A[f i := g i] else A) is A ! f i = g i"
  using assms
proof (induction "is" arbitrary: A)
  case Nil
  then show ?case by simp
next
  case (Cons x xs)
  show ?case
  proof (cases "i \<in> set xs")
    case True
    have "fold (\<lambda>i A. if c i then A[f i := g i] else A) xs (if c x then A[f x := g x] else A) ! f i = g i"
      by (rule Cons.IH) (use True Cons.prems in auto)
    then show ?thesis by simp
  next
    case False
    with Cons.prems have ix: "x = i" by auto
    have "fold (\<lambda>i A. if c i then A[f i := g i] else A) xs (A[f i := g i]) ! f i = A[f i := g i] ! f i"
      by (rule fold_cupd_miss) (use Cons.prems False in auto)
    with Cons.prems ix show ?thesis by simp
  qed
qed

lemma fold_upd_miss:
  "(\<And>i. i \<in> set is \<Longrightarrow> f i \<noteq> p) \<Longrightarrow> fold (\<lambda>i A. A[f i := g i]) is A ! p = A ! p"
  using fold_cupd_miss [of "is" "\<lambda>_. True" f p g A] by simp

lemma fold_upd_hit:
  assumes "i \<in> set is" "f i < length A"
    and "\<And>i'. i' \<in> set is \<Longrightarrow> f i' = f i \<Longrightarrow> i' = i"
  shows "fold (\<lambda>i A. A[f i := g i]) is A ! f i = g i"
  using fold_cupd_hit [of i "is" "\<lambda>_. True" f A g] assms by simp


section \<open>Cells of a matrix\<close>


lemma sub2ind_less: "r < n \<Longrightarrow> c < m \<Longrightarrow> sub2ind r c n < n * m"
proof -
  assume r: "r < n" and c: "c < m"
  have "c * n + r < c * n + n" using r by simp
  also have "\<dots> = Suc c * n" by simp
  also have "\<dots> \<le> m * n" using c by (intro mult_le_mono1) simp
  finally show ?thesis by (simp add: sub2ind_def mult.commute)
qed

lemma sub2ind_inj:
  assumes "r < n" "r' < n" "sub2ind r c n = sub2ind r' c' n"
  shows "r = r' \<and> c = c'"
proof -
  from assms(3) have e: "c * n + r = c' * n + r'" by (simp add: sub2ind_def)
  from assms(1) have "(c * n + r) mod n = r" "(c * n + r) div n = c" by simp_all
  moreover from assms(2) have "(c' * n + r') mod n = r'" "(c' * n + r') div n = c'" by simp_all
  ultimately show ?thesis using e by metis
qed

lemma length_fold_upd2 [simp]:
  "length (fold (\<lambda>(a, b) A. A[f a b := g a b]) ps A) = length A"
  by (induction ps arbitrary: A) auto

lemma fold_upd2_miss:
  assumes "\<And>a b. (a, b) \<in> set ps \<Longrightarrow> f a b \<noteq> p"
  shows "fold (\<lambda>(a, b) A. A[f a b := g a b]) ps A ! p = A ! p"
proof -
  have eq: "(\<lambda>(a, b) A. A[f a b := g a b]) = (\<lambda>q A. A[(\<lambda>(a, b). f a b) q := (\<lambda>(a, b). g a b) q])"
    by (simp add: fun_eq_iff)
  show ?thesis unfolding eq
    by (rule fold_upd_miss) (use assms in auto)
qed

lemma fold_upd2_hit:
  assumes "(a, b) \<in> set ps" "f a b < length A"
    and "\<And>a' b'. (a', b') \<in> set ps \<Longrightarrow> f a' b' = f a b \<Longrightarrow> a' = a \<and> b' = b"
  shows "fold (\<lambda>(a, b) A. A[f a b := g a b]) ps A ! f a b = g a b"
proof -
  have eq: "(\<lambda>(a, b) A. A[f a b := g a b]) = (\<lambda>q A. A[(\<lambda>(a, b). f a b) q := (\<lambda>(a, b). g a b) q])"
    by (simp add: fun_eq_iff)
  have "fold (\<lambda>q A. A[(\<lambda>(a, b). f a b) q := (\<lambda>(a, b). g a b) q]) ps A ! (\<lambda>(a, b). f a b) (a, b)
        = (\<lambda>(a, b). g a b) (a, b)"
  proof (rule fold_upd_hit)
    show "(a, b) \<in> set ps" by fact
    show "(case (a, b) of (a, b) \<Rightarrow> f a b) < length A" using assms(2) by simp
    fix q assume q: "q \<in> set ps" "(case q of (a, b) \<Rightarrow> f a b) = (case (a, b) of (a, b) \<Rightarrow> f a b)"
    obtain a' b' where qq: "q = (a', b')" by (cases q)
    with q assms(3) [of a' b'] show "q = (a, b)" by simp
  qed
  then show ?thesis unfolding eq by simp
qed

text \<open>A cell of a matrix that two nested loops fill.\<close>
lemma fold_matrix_nth:
  assumes "r < n" "c < m" "length A = n * m"
  shows "fold (\<lambda>(a, b) A. A[sub2ind a b n := g a b]) (List.product [0..<n] [0..<m]) A ! sub2ind r c n = g r c"
proof (rule fold_upd2_hit)
  show "(r, c) \<in> set (List.product [0..<n] [0..<m])" using assms by simp
  show "sub2ind r c n < length A" using assms by (simp add: sub2ind_less)
  fix a' b' assume "(a', b') \<in> set (List.product [0..<n] [0..<m])" "sub2ind a' b' n = sub2ind r c n"
  then show "a' = r \<and> b' = c" using sub2ind_inj [of a' n r b' c] assms by simp
qed


section \<open>The decode loops\<close>


lemma decode_loop2_split:
  "fold (\<lambda>i (f, r). if ls ! i \<ge> m then (f[i := m], r) else (f[i := ls ! i], r[ls ! i := i])) is (f0, r0)
   = (fold (\<lambda>i f. f[i := (if ls ! i \<ge> m then m else ls ! i)]) is f0,
      fold (\<lambda>i r. if ls ! i < m then r[ls ! i := i] else r) is r0)"
  by (induction "is" arbitrary: f0 r0) (auto simp: not_le)

lemma decode_mapping_eq:
  "decode_mapping n m ls loc =
    (fold (\<lambda>i f. f[i := (if ls ! i \<ge> m then m else ls ! i)]) [0..<n] (fst loc),
     fold (\<lambda>j r. if ls ! (n + j) < m then r[j := n] else r) [0..<m]
       (fold (\<lambda>i r. if ls ! i < m then r[ls ! i := i] else r) [0..<n]
          (fold (\<lambda>j r. r[j := n]) [0..<m] (snd loc))))"
  by (simp add: decode_mapping_def decode_loop2_split Let_def)

lemma decode_fwd_nth:
  assumes "i < n" "n \<le> length (fst loc)"
  shows "fst (decode_mapping n m ls loc) ! i = (if ls ! i \<ge> m then m else ls ! i)"
proof -
  have "fold (\<lambda>i f. f[(\<lambda>i. i) i := (if ls ! i \<ge> m then m else ls ! i)]) [0..<n] (fst loc) ! (\<lambda>i. i) i
        = (if ls ! i \<ge> m then m else ls ! i)"
    by (rule fold_upd_hit) (use assms in auto)
  then show ?thesis by (simp add: decode_mapping_eq)
qed

lemma decode_lengths [simp]:
  "length (fst (decode_mapping n m ls loc)) = length (fst loc)"
  "length (snd (decode_mapping n m ls loc)) = length (snd loc)"
  by (simp_all add: decode_mapping_eq)

text \<open>The reverse entry of a column \<open>j\<close> that is the image of exactly one row \<open>i\<close>.\<close>
lemma decode_rev_hit:
  assumes i: "i < n" and lsi: "ls ! i = j" and j: "j < m" and len: "m \<le> length (snd loc)"
    and inj: "\<And>i'. i' < n \<Longrightarrow> ls ! i' = j \<Longrightarrow> i' = i"
    and row: "\<not> ls ! (n + j) < m"
  shows "snd (decode_mapping n m ls loc) ! j = i"
proof -
  let ?r1 = "fold (\<lambda>j r. r[j := n]) [0..<m] (snd loc)"
  let ?r2 = "fold (\<lambda>i r. if ls ! i < m then r[ls ! i := i] else r) [0..<n] ?r1"
  have "fold (\<lambda>i r. if (\<lambda>i. ls ! i < m) i then r[(\<lambda>i. ls ! i) i := (\<lambda>i. i) i] else r) [0..<n] ?r1 ! (\<lambda>i. ls ! i) i = (\<lambda>i. i) i"
  proof (rule fold_cupd_hit)
    show "i \<in> set [0..<n]" using i by simp
    show "ls ! i < m" using lsi j by simp
    show "ls ! i < length ?r1" using lsi j len by simp
    fix i' assume a: "i' \<in> set [0..<n]" "ls ! i' < m" "ls ! i' = ls ! i"
    from a(1) have "i' < n" by simp
    moreover from a(3) lsi have "ls ! i' = j" by (rule trans)
    ultimately show "i' = i" by (rule inj)
  qed
  then have r2: "?r2 ! j = i" using lsi by simp
  have "fold (\<lambda>j r. if (\<lambda>j. ls ! (n + j) < m) j then r[(\<lambda>j. j) j := (\<lambda>_. n) j] else r) [0..<m] ?r2 ! j = ?r2 ! j"
  proof (rule fold_cupd_miss)
    fix j' assume "j' \<in> set [0..<m]" "ls ! (n + j') < m"
    then show "j' \<noteq> j" using row by blast
  qed
  with r2 show ?thesis by (simp add: decode_mapping_eq)
qed

text \<open>The reverse entry of a column that is the image of no row.\<close>
lemma decode_rev_miss:
  assumes "j < m" "m \<le> length (snd loc)"
    and "\<And>i. i < n \<Longrightarrow> ls ! i \<noteq> j"
  shows "snd (decode_mapping n m ls loc) ! j = n"
proof -
  let ?r1 = "fold (\<lambda>j r. r[j := n]) [0..<m] (snd loc)"
  let ?r2 = "fold (\<lambda>i r. if ls ! i < m then r[ls ! i := i] else r) [0..<n] ?r1"
  let ?r3 = "fold (\<lambda>j r. if ls ! (n + j) < m then r[j := n] else r) [0..<m] ?r2"
  have "fold (\<lambda>j r. r[(\<lambda>j. j) j := (\<lambda>_. n) j]) [0..<m] (snd loc) ! (\<lambda>j. j) j = (\<lambda>_. n) j"
    by (rule fold_upd_hit) (use assms in auto)
  then have r1: "?r1 ! j = n" by simp
  have "fold (\<lambda>i r. if (\<lambda>i. ls ! i < m) i then r[(\<lambda>i. ls ! i) i := (\<lambda>i. i) i] else r) [0..<n] ?r1 ! j = ?r1 ! j"
    by (rule fold_cupd_miss) (use assms in auto)
  with r1 have r2: "?r2 ! j = n" by simp
  have "?r3 ! j = n"
  proof (cases "ls ! (n + j) < m")
    case True
    have "fold (\<lambda>j r. if (\<lambda>j. ls ! (n + j) < m) j then r[(\<lambda>j. j) j := (\<lambda>_. n) j] else r) [0..<m] ?r2 ! (\<lambda>j. j) j = (\<lambda>_. n) j"
      by (rule fold_cupd_hit) (use assms True in auto)
    then show ?thesis by simp
  next
    case False
    have "fold (\<lambda>j r. if (\<lambda>j. ls ! (n + j) < m) j then r[(\<lambda>j. j) j := (\<lambda>_. n) j] else r) [0..<m] ?r2 ! j = ?r2 ! j"
      by (rule fold_cupd_miss) (use False in auto)
    with r2 show ?thesis by simp
  qed
  then show ?thesis by (simp add: decode_mapping_eq)
qed

text \<open>The third loop sends \<open>j\<close> back to epsilon when row \<open>n + j\<close> holds a column of \<open>G\<^sub>2\<close>.\<close>
lemma decode_rev_reset:
  assumes "j < m" "m \<le> length (snd loc)" "ls ! (n + j) < m"
  shows "snd (decode_mapping n m ls loc) ! j = n"
proof -
  let ?r1 = "fold (\<lambda>j r. r[j := n]) [0..<m] (snd loc)"
  let ?r2 = "fold (\<lambda>i r. if ls ! i < m then r[ls ! i := i] else r) [0..<n] ?r1"
  have "fold (\<lambda>j r. if (\<lambda>j. ls ! (n + j) < m) j then r[(\<lambda>j. j) j := (\<lambda>_. n) j] else r) [0..<m] ?r2 ! (\<lambda>j. j) j = (\<lambda>_. n) j"
    by (rule fold_cupd_hit) (use assms in auto)
  then show ?thesis by (simp add: decode_mapping_eq)
qed


lemma lsap_matching_inj:
  assumes "lsap_matching n m ls" "i < n" "i' < n" "ls ! i' = ls ! i"
  shows "i' = i"
proof -
  from assms have "distinct ls" "i < length ls" "i' < length ls"
    by (simp_all add: lsap_matching_def)
  with assms(4) show ?thesis by (simp add: nth_eq_iff_index_eq)
qed

lemma lsap_matching_row:
  assumes "lsap_matching n m ls" "i < n" "j < m" "ls ! i = j"
  shows "\<not> ls ! (n + j) < m"
proof
  assume lt: "ls ! (n + j) < m"
  with assms(1,3) have "ls ! (n + j) = j" by (simp add: lsap_matching_def)
  with assms(4) have eq: "ls ! (n + j) = ls ! i" by simp
  from assms have "distinct ls" "i < length ls" "n + j < length ls"
    by (simp_all add: lsap_matching_def)
  with eq have "n + j = i" by (simp add: nth_eq_iff_index_eq)
  with assms(2) show False by simp
qed

text \<open>
  Claim C5, amended. The pair written by the decode loops is consistent whenever the seed is
  a matching of the lifted matrix: a permutation of \<open>n + m\<close> elements whose row \<open>n + j\<close>
  holds column \<open>j\<close> or an epsilon column. Then \<open>fwd[i] = j < m\<close> gives \<open>rev[j] = i\<close>, and
  \<open>rev[j] = i < n\<close> gives \<open>fwd[i] = j\<close>.
\<close>

theorem decode_mapping_consistent:
  assumes ls: "lsap_matching n m ls"
    and lf: "n \<le> length (fst loc)" and lr: "m \<le> length (snd loc)"
  shows "consistent_mapping n m (fst (decode_mapping n m ls loc)) (snd (decode_mapping n m ls loc))"
proof -
  let ?fwd = "fst (decode_mapping n m ls loc)" and ?rev = "snd (decode_mapping n m ls loc)"
  have fwd: "?fwd ! i = (if ls ! i \<ge> m then m else ls ! i)" if "i < n" for i
    using that lf by (rule decode_fwd_nth)
  have hit: "?rev ! (ls ! i) = i" if i: "i < n" and lt: "ls ! i < m" for i
  proof (rule decode_rev_hit [OF i refl lt lr])
    fix i' assume "i' < n" "ls ! i' = ls ! i"
    then show "i' = i" using lsap_matching_inj [OF ls i] by blast
  next
    show "\<not> ls ! (n + ls ! i) < m" using lsap_matching_row [OF ls i lt refl] .
  qed
  have one: "?rev ! (?fwd ! i) = i" if i: "i < n" and lt: "?fwd ! i < m" for i
  proof -
    from lt fwd [OF i] have "ls ! i < m" "?fwd ! i = ls ! i" by (auto split: if_splits)
    with hit [OF i] show ?thesis by simp
  qed
  have two: "?fwd ! (?rev ! j) = j" if j: "j < m" and lt: "?rev ! j < n" for j
  proof (cases "ls ! (n + j) < m")
    case True
    from decode_rev_reset [OF j lr True] lt show ?thesis by simp
  next
    case False
    show ?thesis
    proof (cases "\<exists>i<n. ls ! i = j")
      case True
      then obtain i where i: "i < n" and lsi: "ls ! i = j" by blast
      from hit [OF i] lsi j have "?rev ! j = i" by simp
      moreover from fwd [OF i] lsi j have "?fwd ! i = j" by simp
      ultimately show ?thesis by simp
    next
      case no: False
      have "?rev ! j = n"
        by (rule decode_rev_miss [OF j lr]) (use no in blast)
      with lt show ?thesis by simp
    qed
  qed
  show ?thesis unfolding consistent_mapping_def using one two by blast
qed

theorem decode_mapping_consistent_witness:
  "lsap_matching 1 1 [0, 1] \<and>
   consistent_mapping 1 1 (fst (decode_mapping 1 1 [0, 1] ([0, 0], [0, 0])))
     (snd (decode_mapping 1 1 [0, 1] ([0, 0], [0, 0])))"
proof -
  have h: "lsap_matching 1 1 [0, 1]" by (simp add: lsap_matching_def)
  from decode_mapping_consistent [OF h, of "([0, 0], [0, 0])"] h show ?thesis by simp
qed

text \<open>
  For a permutation that is not such a matching the third loop resets the wrong entry: with
  \<open>n = 1\<close>, \<open>m = 2\<close> and the identity permutation, node \<open>0\<close> is mapped to \<open>0\<close> but the
  reverse entry of \<open>0\<close> is epsilon.
\<close>

lemma decode_mapping_identity3:
  "decode_mapping 1 2 [0, 1, 2] ([0, 0], [0, 0, 0]) = ([0, 0], [1, 1, 0])"
  by code_simp

theorem decode_mapping_inconsistent:
  "\<not> consistent_mapping 1 2 (fst (decode_mapping 1 2 [0, 1, 2] ([0, 0], [0, 0, 0])))
       (snd (decode_mapping 1 2 [0, 1, 2] ([0, 0], [0, 0, 0])))"
proof
  assume "consistent_mapping 1 2 (fst (decode_mapping 1 2 [0, 1, 2] ([0, 0], [0, 0, 0])))
       (snd (decode_mapping 1 2 [0, 1, 2] ([0, 0], [0, 0, 0])))"
  then have "consistent_mapping 1 2 [0, 0] [1, 1, 0]"
    by (simp only: decode_mapping_identity3 fst_conv snd_conv)
  then have "[0, 0] ! 0 < (2::nat) \<longrightarrow> [1, 1, 0::nat] ! ([0, 0] ! 0) = 0"
    unfolding consistent_mapping_def by blast
  then show False by simp
qed


section \<open>The initial LSAP solution\<close>


lemma rhoperm_rows_split:
  "fold (\<lambda>i (rho, eps). if fwd ! i < m then (rho[i := fwd ! i], eps) else (rho[i := i + m], eps[i := True])) is (r0, e0)
   = (fold (\<lambda>i rho. rho[i := (if fwd ! i < m then fwd ! i else i + m)]) is r0,
      fold (\<lambda>i eps. if \<not> fwd ! i < m then eps[i := True] else eps) is e0)"
  by (induction "is" arbitrary: r0 e0) auto

lemma rhoperm_rows_eq:
  "rhoperm_rows n m fwd =
     (fold (\<lambda>i rho. rho[i := (if fwd ! i < m then fwd ! i else i + m)]) [0..<n] (replicate (n + m) 0),
      fold (\<lambda>i eps. if \<not> fwd ! i < m then eps[i := True] else eps) [0..<n] (replicate n False))"
  by (simp add: rhoperm_rows_def rhoperm_rows_split)

lemma rhoperm_rows_length [simp]: "length (fst (rhoperm_rows n m fwd)) = n + m"
  by (simp add: rhoperm_rows_eq)

lemma rhoperm_rows_nth:
  assumes "i < n"
  shows "fst (rhoperm_rows n m fwd) ! i = (if fwd ! i < m then fwd ! i else i + m)"
proof -
  have "fold (\<lambda>i rho. rho[(\<lambda>i. i) i := (if fwd ! i < m then fwd ! i else i + m)]) [0..<n] (replicate (n + m) 0) ! (\<lambda>i. i) i
        = (if fwd ! i < m then fwd ! i else i + m)"
  proof (rule fold_upd_hit)
    show "i \<in> set [0..<n]" using assms by simp
    show "i < length (replicate (n + m) (0::nat))" using assms by simp
  qed
  then show ?thesis by (simp add: rhoperm_rows_eq)
qed

lemma rhoperm_cols_inv:
  assumes len: "length rho0 = n + m"
  shows "q \<le> m \<Longrightarrow>
    (case fold (rhoperm_cols_step n m rv) [0..<q] (rho0, eps0, f0) of (rho, eps, f) \<Rightarrow>
       length rho = n + m \<and> (\<forall>p<n. rho ! p = rho0 ! p) \<and>
       (\<forall>j<q. if rv ! j = n then rho ! (j + n) = j else m \<le> rho ! (j + n)))"
proof (induction q)
  case 0
  then show ?case using len by simp
next
  case (Suc q)
  obtain rho eps f where st: "fold (rhoperm_cols_step n m rv) [0..<q] (rho0, eps0, f0) = (rho, eps, f)"
    by (cases "fold (rhoperm_cols_step n m rv) [0..<q] (rho0, eps0, f0)") auto
  from Suc st have IH: "length rho = n + m" "\<forall>p<n. rho ! p = rho0 ! p"
    "\<forall>j<q. if rv ! j = n then rho ! (j + n) = j else m \<le> rho ! (j + n)"
    by auto
  from Suc.prems have kn: "q + n < length rho" using IH(1) by simp
  have step: "fold (rhoperm_cols_step n m rv) [0..<Suc q] (rho0, eps0, f0)
              = rhoperm_cols_step n m rv q (rho, eps, f)"
    by (simp add: st)
  show ?case
  proof (cases "rv ! q = n")
    case True
    then have "fold (rhoperm_cols_step n m rv) [0..<Suc q] (rho0, eps0, f0) = (rho[q + n := q], eps, f)"
      by (simp only: step) (simp add: rhoperm_cols_step_def)
    moreover have "\<forall>j<Suc q. if rv ! j = n then rho[q + n := q] ! (j + n) = j else m \<le> rho[q + n := q] ! (j + n)"
      using IH(3) True kn by (auto simp: less_Suc_eq nth_list_update)
    ultimately show ?thesis using IH(1,2) by (simp add: nth_list_update)
  next
    case False
    define f' where "f' = firstEpsNonAssign n eps f"
    from False have "fold (rhoperm_cols_step n m rv) [0..<Suc q] (rho0, eps0, f0) = (rho[q + n := f' + m], eps[f' := True], f')"
      by (simp only: step) (simp add: rhoperm_cols_step_def f'_def Let_def)
    moreover have "\<forall>j<Suc q. if rv ! j = n then rho[q + n := f' + m] ! (j + n) = j else m \<le> rho[q + n := f' + m] ! (j + n)"
      using IH(3) False kn by (auto simp: less_Suc_eq nth_list_update)
    ultimately show ?thesis using IH(1,2) by (simp add: nth_list_update)
  qed
qed

lemma rhoperm_cols_eq:
  "rhoperm_cols n m rv st = fst (fold (rhoperm_cols_step n m rv) [0..<m] (fst st, snd st, 0))"
  by (simp add: rhoperm_cols_def)

lemma rhoperm_facts:
  "length (rhoperm n m fwd rv) = n + m"
  "i < n \<Longrightarrow> rhoperm n m fwd rv ! i = (if fwd ! i < m then fwd ! i else i + m)"
  "j < m \<Longrightarrow> rv ! j = n \<Longrightarrow> rhoperm n m fwd rv ! (n + j) = j"
  "j < m \<Longrightarrow> rv ! j \<noteq> n \<Longrightarrow> m \<le> rhoperm n m fwd rv ! (n + j)"
proof -
  let ?st = "rhoperm_rows n m fwd"
  obtain rho eps f where st: "fold (rhoperm_cols_step n m rv) [0..<m] (fst ?st, snd ?st, 0) = (rho, eps, f)"
    by (cases "fold (rhoperm_cols_step n m rv) [0..<m] (fst ?st, snd ?st, 0)") auto
  have rho: "rhoperm n m fwd rv = rho"
    by (simp add: rhoperm_def rhoperm_cols_eq st)
  from rhoperm_cols_inv [of "fst ?st" n m m rv "snd ?st" 0] st
  have inv: "length rho = n + m" "\<forall>p<n. rho ! p = fst ?st ! p"
    "\<forall>j<m. if rv ! j = n then rho ! (j + n) = j else m \<le> rho ! (j + n)"
    by auto
  show "length (rhoperm n m fwd rv) = n + m" using inv(1) rho by simp
  show "i < n \<Longrightarrow> rhoperm n m fwd rv ! i = (if fwd ! i < m then fwd ! i else i + m)"
    using inv(2) rho rhoperm_rows_nth [of i n m fwd] by simp
  show "j < m \<Longrightarrow> rv ! j = n \<Longrightarrow> rhoperm n m fwd rv ! (n + j) = j"
    using inv(3) rho by (auto simp: add.commute)
  show "j < m \<Longrightarrow> rv ! j \<noteq> n \<Longrightarrow> m \<le> rhoperm n m fwd rv ! (n + j)"
    using inv(3) rho by (auto simp: add.commute)
qed


text \<open>Decoding \<open>rhoperm\<close> gives back the LSAPE solution it was built from.\<close>

lemma decode_rhoperm:
  assumes v: "lsape_mapping n m fwd rv"
    and lf: "n \<le> length (fst loc)" and lr: "m \<le> length (snd loc)"
  shows "i < n \<Longrightarrow> fst (decode_mapping n m (rhoperm n m fwd rv) loc) ! i = fwd ! i"
    and "j < m \<Longrightarrow> snd (decode_mapping n m (rhoperm n m fwd rv) loc) ! j = rv ! j"
proof -
  let ?ls = "rhoperm n m fwd rv"
  from v have fle: "\<And>i. i < n \<Longrightarrow> fwd ! i \<le> m" and rle: "\<And>j. j < m \<Longrightarrow> rv ! j \<le> n"
    and c1: "\<And>i. i < n \<Longrightarrow> fwd ! i < m \<Longrightarrow> rv ! (fwd ! i) = i"
    and c2: "\<And>j. j < m \<Longrightarrow> rv ! j < n \<Longrightarrow> fwd ! (rv ! j) = j"
    by (auto simp: lsape_mapping_def consistent_mapping_def)
  have row: "?ls ! i = (if fwd ! i < m then fwd ! i else i + m)" if "i < n" for i
    using that by (rule rhoperm_facts(2))
  show "fst (decode_mapping n m ?ls loc) ! i = fwd ! i" if i: "i < n"
  proof -
    have "fst (decode_mapping n m ?ls loc) ! i = (if ?ls ! i \<ge> m then m else ?ls ! i)"
      using i lf by (rule decode_fwd_nth)
    with row [OF i] fle [OF i] show ?thesis by (auto simp: not_less)
  qed
  show "snd (decode_mapping n m ?ls loc) ! j = rv ! j" if j: "j < m"
  proof (cases "rv ! j = n")
    case True
    from rhoperm_facts(3) [OF j True, where fwd = fwd] j have "?ls ! (n + j) < m" by simp
    from decode_rev_reset [OF j lr this] True show ?thesis by simp
  next
    case False
    with rle [OF j] have lt: "rv ! j < n" by simp
    define i where "i = rv ! j"
    from lt have i: "i < n" by (simp add: i_def)
    from c2 [OF j lt] have fi: "fwd ! i = j" by (simp add: i_def)
    from row [OF i] fi j have lsi: "?ls ! i = j" by simp
    have "snd (decode_mapping n m ?ls loc) ! j = i"
    proof (rule decode_rev_hit [OF i lsi j lr])
      fix i' assume i': "i' < n" and e: "?ls ! i' = j"
      from row [OF i'] e j have "fwd ! i' < m" "fwd ! i' = j"
        by (auto split: if_splits)
      with c1 [OF i'] have "rv ! j = i'" by simp
      then show "i' = i" by (simp add: i_def)
    next
      from rhoperm_facts(4) [OF j False, where fwd = fwd]
      show "\<not> ?ls ! (n + j) < m" by (simp add: not_less)
    qed
    then show ?thesis by (simp add: i_def)
  qed
qed


section \<open>The epsilon slots of the initial LSAP solution\<close>

lemma nth_update_read:
  "j < length xs \<Longrightarrow> xs[a := x] ! j = (if a = j then x else xs ! j)"
  by (cases "a = j") simp_all

lemma rhoperm_rows_eps:
  "length (snd (rhoperm_rows n m fwd)) = n"
  "i < n \<Longrightarrow> snd (rhoperm_rows n m fwd) ! i = (\<not> fwd ! i < m)"
proof -
  have g: "length (fold (\<lambda>i eps. if \<not> fwd ! i < m then eps[i := True] else eps) xs e0) = length e0"
    for xs and e0 :: "bool list"
    by (induction xs arbitrary: e0) auto
  show "length (snd (rhoperm_rows n m fwd)) = n"
    by (simp add: rhoperm_rows_eq g)
  have h: "i < length e0 \<Longrightarrow>
       fold (\<lambda>i eps. if \<not> fwd ! i < m then eps[i := True] else eps) xs e0 ! i
         = (e0 ! i \<or> (i \<in> set xs \<and> \<not> fwd ! i < m))"
    for xs and e0 :: "bool list"
    by (induction xs arbitrary: e0) (auto simp: nth_update_read)
  show "i < n \<Longrightarrow> snd (rhoperm_rows n m fwd) ! i = (\<not> fwd ! i < m)"
    by (simp add: rhoperm_rows_eq h)
qed

lemma firstEpsNonAssign_facts:
  "f \<le> firstEpsNonAssign n eps f"
  "\<And>i. f \<le> i \<Longrightarrow> i < firstEpsNonAssign n eps f \<Longrightarrow> eps ! i"
  "firstEpsNonAssign n eps f < n \<Longrightarrow> \<not> eps ! firstEpsNonAssign n eps f"
  "f \<le> n \<Longrightarrow> firstEpsNonAssign n eps f \<le> n"
proof -
  show "f \<le> firstEpsNonAssign n eps f"
  proof (induction n eps f rule: firstEpsNonAssign.induct)
    case (1 n eps f)
    show ?case
    proof (cases "f < n \<and> eps ! f")
      case True
      with 1 have "Suc f \<le> firstEpsNonAssign n eps (Suc f)" by simp
      with True show ?thesis by (subst firstEpsNonAssign.simps) simp
    next
      case False
      then show ?thesis by (subst firstEpsNonAssign.simps) auto
    qed
  qed
  show "\<And>i. f \<le> i \<Longrightarrow> i < firstEpsNonAssign n eps f \<Longrightarrow> eps ! i"
  proof (induction n eps f rule: firstEpsNonAssign.induct)
    case (1 n eps f)
    show ?case
    proof (cases "f < n \<and> eps ! f")
      case True
      then have e: "firstEpsNonAssign n eps f = firstEpsNonAssign n eps (Suc f)"
        by (subst firstEpsNonAssign.simps) simp
      show ?thesis
      proof (cases "i = f")
        case True
        with \<open>f < n \<and> eps ! f\<close> show ?thesis by simp
      next
        case False
        with "1.prems" have "Suc f \<le> i" by simp
        from "1.IH" [OF True this] "1.prems"(2) e show ?thesis by simp
      qed
    next
      case False
      then have "firstEpsNonAssign n eps f = f" by (subst firstEpsNonAssign.simps) auto
      with "1.prems" show ?thesis by simp
    qed
  qed
  show "firstEpsNonAssign n eps f < n \<Longrightarrow> \<not> eps ! firstEpsNonAssign n eps f"
  proof (induction n eps f rule: firstEpsNonAssign.induct)
    case (1 n eps f)
    show ?case
    proof (cases "f < n \<and> eps ! f")
      case True
      then have e: "firstEpsNonAssign n eps f = firstEpsNonAssign n eps (Suc f)"
        by (subst firstEpsNonAssign.simps) simp
      from "1.IH" [OF True] "1.prems" e show ?thesis by simp
    next
      case False
      then have e: "firstEpsNonAssign n eps f = f" by (subst firstEpsNonAssign.simps) auto
      with "1.prems" False show ?thesis by simp
    qed
  qed
  show "f \<le> n \<Longrightarrow> firstEpsNonAssign n eps f \<le> n"
  proof (induction n eps f rule: firstEpsNonAssign.induct)
    case (1 n eps f)
    show ?case
    proof (cases "f < n \<and> eps ! f")
      case True
      then have e: "firstEpsNonAssign n eps f = firstEpsNonAssign n eps (Suc f)"
        by (subst firstEpsNonAssign.simps) simp
      from True have "Suc f \<le> n" by simp
      from "1.IH" [OF True this] e show ?thesis by simp
    next
      case False
      then have e: "firstEpsNonAssign n eps f = f" by (subst firstEpsNonAssign.simps) auto
      with "1.prems" show ?thesis by simp
    qed
  qed
qed

lemma free_slots_facts:
  "distinct (free_slots n m fwd)"
  "a < length (free_slots n m fwd) \<Longrightarrow>
     free_slots n m fwd ! a < n \<and> fwd ! (free_slots n m fwd ! a) < m"
  "c < length (free_slots n m fwd) \<Longrightarrow> free_slots n m fwd ! c \<notin> set (take c (free_slots n m fwd))"
  "c < length (free_slots n m fwd) \<Longrightarrow> i < free_slots n m fwd ! c \<Longrightarrow> fwd ! i < m \<Longrightarrow>
     i \<in> set (take c (free_slots n m fwd))"
proof -
  let ?F = "free_slots n m fwd"
  show d: "distinct ?F" by (simp add: free_slots_def)
  have srt: "sorted_wrt (<) ?F" unfolding free_slots_def by (rule sorted_wrt_filter) simp
  show "?F ! a < n \<and> fwd ! (?F ! a) < m" if "a < length ?F"
  proof -
    from that have "?F ! a \<in> set ?F" by simp
    then show ?thesis by (simp add: free_slots_def)
  qed
  show "?F ! c \<notin> set (take c ?F)" if c: "c < length ?F"
  proof
    assume "?F ! c \<in> set (take c ?F)"
    then obtain a where a: "a < length (take c ?F)" "take c ?F ! a = ?F ! c"
      by (auto simp: in_set_conv_nth)
    with c have "a < c" "?F ! a = ?F ! c" by simp_all
    with d c show False by (simp add: nth_eq_iff_index_eq)
  qed
  show "i \<in> set (take c ?F)" if c: "c < length ?F" and i: "i < ?F ! c" and p: "fwd ! i < m"
  proof -
    have "?F ! c < n" using free_slots_def c nth_mem [OF c] by simp
    with i p have "i \<in> set ?F" by (simp add: free_slots_def)
    then obtain a where a: "a < length ?F" "?F ! a = i" by (auto simp: in_set_conv_nth)
    have "a < c"
    proof (rule ccontr)
      assume "\<not> a < c"
      then have "c = a \<or> c < a" by auto
      then show False
      proof
        assume "c = a"
        with a i show False by simp
      next
        assume "c < a"
        from sorted_wrt_nth_less [OF srt this a(1)] a i show False by simp
      qed
    qed
    with a c have "take c ?F ! a = i" "a < length (take c ?F)" by simp_all
    then show ?thesis by (auto simp: in_set_conv_nth)
  qed
qed

lemma substituted_before_Suc:
  "substituted_before n rv (Suc j) = (if rv ! j \<noteq> n then Suc (substituted_before n rv j) else substituted_before n rv j)"
  by (simp add: substituted_before_def)

lemma substituted_before_mono:
  "a \<le> b \<Longrightarrow> substituted_before n rv a \<le> substituted_before n rv b"
proof (induction b)
  case 0
  then show ?case by simp
next
  case (Suc b)
  show ?case
  proof (cases "a = Suc b")
    case True
    then show ?thesis by simp
  next
    case False
    with Suc.prems have "a \<le> b" by simp
    from Suc.IH [OF this] show ?thesis by (simp add: substituted_before_Suc)
  qed
qed

lemma substituted_total:
  assumes v: "lsape_mapping n m fwd rv"
  shows "substituted_before n rv m = length (free_slots n m fwd)"
proof -
  from v have rle: "\<And>j. j < m \<Longrightarrow> rv ! j \<le> n"
    and c1: "\<And>i. i < n \<Longrightarrow> fwd ! i < m \<Longrightarrow> rv ! (fwd ! i) = i"
    and c2: "\<And>j. j < m \<Longrightarrow> rv ! j < n \<Longrightarrow> fwd ! (rv ! j) = j"
    by (simp_all add: lsape_mapping_def consistent_mapping_def)
  have "substituted_before n rv m = card {j \<in> {..<m}. rv ! j \<noteq> n}"
    unfolding substituted_before_def
    by (simp add: distinct_length_filter atLeast0LessThan Int_def conj_commute)
  also have "{j \<in> {..<m}. rv ! j \<noteq> n} = {j \<in> {..<m}. rv ! j < n}"
    using rle by (auto simp: le_less)
  also have "card {j \<in> {..<m}. rv ! j < n} = card {i \<in> {..<n}. fwd ! i < m}"
    by (rule bij_betw_same_card [where f = "\<lambda>j. rv ! j"])
       (rule bij_betw_byWitness [where f' = "\<lambda>i. fwd ! i"], auto simp: c1 c2)
  also have "\<dots> = length (free_slots n m fwd)"
    unfolding free_slots_def
    by (simp add: distinct_length_filter atLeast0LessThan Int_def conj_commute)
  finally show ?thesis .
qed

lemma rhoperm_cols_slots:
  assumes len: "length rho0 = n + m"
    and e0: "length eps0 = n" "\<And>i. i < n \<Longrightarrow> eps0 ! i = (\<not> fwd ! i < m)"
    and tot: "substituted_before n rv m \<le> length (free_slots n m fwd)"
  shows "q \<le> m \<Longrightarrow>
    (case fold (rhoperm_cols_step n m rv) [0..<q] (rho0, eps0, 0) of (rho, eps, f) \<Rightarrow>
       length rho = n + m \<and> (\<forall>p<n. rho ! p = rho0 ! p) \<and>
       (\<forall>j<q. rho ! (n + j) =
           (if rv ! j = n then j else m + free_slots n m fwd ! substituted_before n rv j)) \<and>
       length eps = n \<and>
       (\<forall>i<n. eps ! i = (\<not> fwd ! i < m \<or> i \<in> set (take (substituted_before n rv q) (free_slots n m fwd)))) \<and>
       (\<forall>i<f. eps ! i) \<and> f \<le> n)"
proof (induction q)
  case 0
  then show ?case using len e0 by (simp add: substituted_before_def)
next
  case (Suc q)
  let ?F = "free_slots n m fwd"
  let ?c = "substituted_before n rv q"
  obtain rho eps f where st: "fold (rhoperm_cols_step n m rv) [0..<q] (rho0, eps0, 0) = (rho, eps, f)"
    by (cases "fold (rhoperm_cols_step n m rv) [0..<q] (rho0, eps0, 0)") auto
  from Suc.prems have qm: "q \<le> m" "q < m" by simp_all
  from Suc.IH [OF qm(1)] have "length rho = n + m \<and> (\<forall>p<n. rho ! p = rho0 ! p) \<and>
    (\<forall>j<q. rho ! (n + j) = (if rv ! j = n then j else m + ?F ! substituted_before n rv j)) \<and>
    length eps = n \<and>
    (\<forall>i<n. eps ! i = (\<not> fwd ! i < m \<or> i \<in> set (take ?c ?F))) \<and>
    (\<forall>i<f. eps ! i) \<and> f \<le> n"
    unfolding st prod.case .
  then have IH: "length rho = n + m" "\<forall>p<n. rho ! p = rho0 ! p"
    "\<forall>j<q. rho ! (n + j) = (if rv ! j = n then j else m + ?F ! substituted_before n rv j)"
    "length eps = n"
    "\<forall>i<n. eps ! i = (\<not> fwd ! i < m \<or> i \<in> set (take ?c ?F))"
    "\<forall>i<f. eps ! i" "f \<le> n"
    by blast+
  from qm IH(1) have kn: "n + q < length rho" by simp
  have step: "fold (rhoperm_cols_step n m rv) [0..<Suc q] (rho0, eps0, 0)
              = rhoperm_cols_step n m rv q (rho, eps, f)"
    by (simp add: st)
  show ?case
  proof (cases "rv ! q = n")
    case True
    then have r: "fold (rhoperm_cols_step n m rv) [0..<Suc q] (rho0, eps0, 0) = (rho[q + n := q], eps, f)"
      by (simp only: step) (simp add: rhoperm_cols_step_def)
    have c: "substituted_before n rv (Suc q) = ?c" using True by (simp add: substituted_before_Suc)
    have a: "\<forall>j<Suc q. rho[q + n := q] ! (n + j) =
           (if rv ! j = n then j else m + ?F ! substituted_before n rv j)"
    proof (intro allI impI)
      fix j assume "j < Suc q"
      then consider "j = q" | "j < q" by (auto simp: less_Suc_eq)
      then show "rho[q + n := q] ! (n + j) =
           (if rv ! j = n then j else m + ?F ! substituted_before n rv j)"
      proof cases
        case 1
        with kn True show ?thesis by (simp add: add.commute)
      next
        case 2
        then have "q + n \<noteq> n + j" by simp
        with IH(3) 2 show ?thesis by simp
      qed
    qed
    have b: "\<forall>p<n. rho[q + n := q] ! p = rho0 ! p" using IH(2) by simp
    show ?thesis unfolding r prod.case c using a b IH(1,4,5,6,7) by simp
  next
    case False
    define f' where "f' = firstEpsNonAssign n eps f"
    from False have r: "fold (rhoperm_cols_step n m rv) [0..<Suc q] (rho0, eps0, 0)
        = (rho[q + n := f' + m], eps[f' := True], f')"
      by (simp only: step) (simp add: rhoperm_cols_step_def f'_def Let_def)
    have c: "substituted_before n rv (Suc q) = Suc ?c" using False by (simp add: substituted_before_Suc)
    have "Suc ?c \<le> substituted_before n rv m"
      unfolding c [symmetric] by (rule substituted_before_mono) (use qm in simp)
    with tot have cl: "?c < length ?F" by simp
    define e where "e = ?F ! ?c"
    note F = free_slots_facts [where n = n and m = m and fwd = fwd]
    from F(2) [OF cl] have en: "e < n" and ef: "fwd ! e < m" by (simp_all add: e_def)
    from F(3) [OF cl] have enot: "e \<notin> set (take ?c ?F)" by (simp add: e_def)
    from IH(5) en ef enot have ne: "\<not> eps ! e" by simp
    have before: "eps ! i" if "i < e" for i
    proof (cases "fwd ! i < m")
      case True
      from F(4) [OF cl that [unfolded e_def] True] that en IH(5) show ?thesis by simp
    next
      case False
      with that en IH(5) show ?thesis by simp
    qed
    note ff = firstEpsNonAssign_facts [where f = f and n = n and eps = eps, folded f'_def]
    have fe: "f \<le> e"
    proof (rule ccontr)
      assume "\<not> f \<le> e"
      then have "e < f" by simp
      with IH(6) ne show False by simp
    qed
    have f'e: "f' = e"
    proof (rule ccontr)
      assume "f' \<noteq> e"
      then consider "f' < e" | "e < f'" by (auto simp: neq_iff)
      then show False
      proof cases
        case 1
        with en have "f' < n" by simp
        from ff(3) [OF this] before [OF 1] show False by simp
      next
        case 2
        from ff(2) [OF fe 2] ne show False by simp
      qed
    qed
    have a: "\<forall>j<Suc q. rho[q + n := f' + m] ! (n + j) =
           (if rv ! j = n then j else m + ?F ! substituted_before n rv j)"
    proof (intro allI impI)
      fix j assume "j < Suc q"
      then consider "j = q" | "j < q" by (auto simp: less_Suc_eq)
      then show "rho[q + n := f' + m] ! (n + j) =
           (if rv ! j = n then j else m + ?F ! substituted_before n rv j)"
      proof cases
        case 1
        with kn False show ?thesis by (simp add: add.commute f'e e_def)
      next
        case 2
        then have "q + n \<noteq> n + j" by simp
        with IH(3) 2 show ?thesis by simp
      qed
    qed
    have b: "\<forall>p<n. rho[q + n := f' + m] ! p = rho0 ! p" using IH(2) by simp
    have tk: "set (take (Suc ?c) ?F) = insert e (set (take ?c ?F))"
      using cl by (simp add: take_Suc_conv_app_nth e_def)
    have d: "\<forall>i<n. eps[f' := True] ! i = (\<not> fwd ! i < m \<or> i \<in> set (take (Suc ?c) ?F))"
      using IH(4,5) en ef unfolding tk f'e by (auto simp: nth_update_read)
    have g: "\<forall>i<f'. eps[f' := True] ! i" using before unfolding f'e by simp
    show ?thesis unfolding r prod.case c using a b d g IH(1,4) en f'e by simp
  qed
qed

lemma rhoperm_slots:
  assumes v: "lsape_mapping n m fwd rv"
  shows "j < m \<Longrightarrow> rhoperm n m fwd rv ! (n + j) =
           (if rv ! j = n then j else m + free_slots n m fwd ! substituted_before n rv j)"
    and "j < m \<Longrightarrow> rv ! j \<noteq> n \<Longrightarrow> substituted_before n rv j < length (free_slots n m fwd)"
proof -
  let ?st = "rhoperm_rows n m fwd"
  obtain rho eps f where st: "fold (rhoperm_cols_step n m rv) [0..<m] (fst ?st, snd ?st, 0) = (rho, eps, f)"
    by (cases "fold (rhoperm_cols_step n m rv) [0..<m] (fst ?st, snd ?st, 0)") auto
  have rho: "rhoperm n m fwd rv = rho"
    by (simp add: rhoperm_def rhoperm_cols_eq st)
  have tot: "substituted_before n rv m \<le> length (free_slots n m fwd)"
    by (simp add: substituted_total [OF v])
  from rhoperm_cols_slots [where ?rho0.0 = "fst ?st" and ?eps0.0 = "snd ?st" and n = n and m = m
      and fwd = fwd and rv = rv and q = m, OF rhoperm_rows_length rhoperm_rows_eps tot]
  have "\<forall>j<m. rho ! (n + j) =
           (if rv ! j = n then j else m + free_slots n m fwd ! substituted_before n rv j)"
    unfolding st prod.case by blast
  then show "j < m \<Longrightarrow> rhoperm n m fwd rv ! (n + j) =
           (if rv ! j = n then j else m + free_slots n m fwd ! substituted_before n rv j)"
    by (simp add: rho)
  show "substituted_before n rv j < length (free_slots n m fwd)" if j: "j < m" and s: "rv ! j \<noteq> n"
  proof -
    from s have "Suc (substituted_before n rv j) = substituted_before n rv (Suc j)"
      by (simp add: substituted_before_Suc)
    also have "\<dots> \<le> substituted_before n rv m"
      by (rule substituted_before_mono) (use j in simp)
    finally show ?thesis using tot by simp
  qed
qed

lemma rhoperm_permutation:
  assumes v: "lsape_mapping n m fwd rv"
  shows "distinct (rhoperm n m fwd rv)" and "\<forall>x\<in>set (rhoperm n m fwd rv). x < n + m"
proof -
  let ?rho = "rhoperm n m fwd rv"
  let ?F = "free_slots n m fwd"
  from v have fle: "\<And>i. i < n \<Longrightarrow> fwd ! i \<le> m" and rle: "\<And>j. j < m \<Longrightarrow> rv ! j \<le> n"
    and c1: "\<And>i. i < n \<Longrightarrow> fwd ! i < m \<Longrightarrow> rv ! (fwd ! i) = i"
    and c2: "\<And>j. j < m \<Longrightarrow> rv ! j < n \<Longrightarrow> fwd ! (rv ! j) = j"
    by (simp_all add: lsape_mapping_def consistent_mapping_def)
  have len: "length ?rho = n + m" by (rule rhoperm_facts(1))
  have row: "?rho ! i = (if fwd ! i < m then fwd ! i else i + m)" if "i < n" for i
    by (rule rhoperm_facts(2) [OF that])
  have col: "?rho ! (n + j) = (if rv ! j = n then j else m + ?F ! substituted_before n rv j)"
    if "j < m" for j by (rule rhoperm_slots(1) [OF v that])
  have cl: "substituted_before n rv j < length ?F" if "j < m" "rv ! j \<noteq> n" for j
    by (rule rhoperm_slots(2) [OF v that])
  note F = free_slots_facts [where n = n and m = m and fwd = fwd]
  have bound: "?rho ! x < n + m" if x: "x < n + m" for x
  proof (cases "x < n")
    case True
    with row [OF True] show ?thesis by auto
  next
    case False
    define j where "j = x - n"
    from False x have j: "j < m" and xj: "x = n + j" by (simp_all add: j_def)
    show ?thesis
    proof (cases "rv ! j = n")
      case True
      with col [OF j] j show ?thesis by (simp add: xj)
    next
      case F2: False
      from F(2) [OF cl [OF j F2]] col [OF j] F2 show ?thesis by (simp add: xj)
    qed
  qed
  show "\<forall>x\<in>set ?rho. x < n + m"
    using bound len by (auto simp: in_set_conv_nth)
  have neq: "?rho ! x \<noteq> ?rho ! y" if xy: "x < y" and y: "y < n + m" for x y
  proof (cases "y < n")
    case True
    with xy have xn: "x < n" by simp
    show ?thesis
    proof
      assume e: "?rho ! x = ?rho ! y"
      show False
      proof (cases "fwd ! x < m")
        case T1: True
        show ?thesis
        proof (cases "fwd ! y < m")
          case T2: True
          from e row [OF xn] row [OF True] T1 T2 have ff: "fwd ! x = fwd ! y" by simp
          have "x = rv ! (fwd ! x)" by (rule c1 [OF xn T1, symmetric])
          also have "\<dots> = rv ! (fwd ! y)" by (simp only: ff)
          also have "\<dots> = y" by (rule c1 [OF True T2])
          finally show False using xy by simp
        next
          case False
          with e row [OF xn] row [OF True] T1 show False by simp
        qed
      next
        case F1: False
        show ?thesis
        proof (cases "fwd ! y < m")
          case T2: True
          with e row [OF xn] row [OF True] F1 show False by simp
        next
          case False
          with e row [OF xn] row [OF True] F1 xy show False by simp
        qed
      qed
    qed
  next
    case False
    define j where "j = y - n"
    from False y have j: "j < m" and yj: "y = n + j" by (simp_all add: j_def)
    show ?thesis
    proof (cases "x < n")
      case xn: True
      show ?thesis
      proof
        assume e: "?rho ! x = ?rho ! y"
        show False
        proof (cases "rv ! j = n")
          case True
          with col [OF j] have ry: "?rho ! y = j" by (simp add: yj)
          show ?thesis
          proof (cases "fwd ! x < m")
            case T1: True
            with e ry row [OF xn] have fj: "fwd ! x = j" by simp
            from c1 [OF xn T1] have "rv ! j = x" unfolding fj .
            with True xn show False by simp
          next
            case False
            with e ry row [OF xn] j show False by simp
          qed
        next
          case F2: False
          with col [OF j] have ry: "?rho ! y = m + ?F ! substituted_before n rv j" by (simp add: yj)
          from F(2) [OF cl [OF j F2]] have fm: "fwd ! (?F ! substituted_before n rv j) < m" by simp
          show ?thesis
          proof (cases "fwd ! x < m")
            case T1: True
            with e ry row [OF xn] show False by simp
          next
            case False
            with e ry row [OF xn] have "x = ?F ! substituted_before n rv j" by simp
            with fm False show False by simp
          qed
        qed
      qed
    next
      case xn: False
      define i where "i = x - n"
      from xn xy yj have i: "i < j" and xi: "x = n + i" by (simp_all add: i_def)
      from i j have im: "i < m" by simp
      show ?thesis
      proof
        assume e: "?rho ! x = ?rho ! y"
        show False
        proof (cases "rv ! i = n")
          case T1: True
          with col [OF im] have rx: "?rho ! x = i" by (simp add: xi)
          show ?thesis
          proof (cases "rv ! j = n")
            case True
            with col [OF j] e rx i show False by (simp add: yj)
          next
            case False
            with col [OF j] e rx im show False by (simp add: yj)
          qed
        next
          case F1: False
          with col [OF im] have rx: "?rho ! x = m + ?F ! substituted_before n rv i" by (simp add: xi)
          show ?thesis
          proof (cases "rv ! j = n")
            case True
            with col [OF j] e rx j show False by (simp add: yj)
          next
            case F2: False
            with col [OF j] e rx have eq: "?F ! substituted_before n rv i = ?F ! substituted_before n rv j"
              by (simp add: yj)
            from F1 have "Suc (substituted_before n rv i) = substituted_before n rv (Suc i)"
              by (simp add: substituted_before_Suc)
            also have "\<dots> \<le> substituted_before n rv j"
              by (rule substituted_before_mono) (use i in simp)
            finally have lt: "substituted_before n rv i < substituted_before n rv j" by simp
            from F(1) cl [OF im F1] cl [OF j F2] eq
            have "substituted_before n rv i = substituted_before n rv j"
              by (simp add: nth_eq_iff_index_eq)
            with lt show False by simp
          qed
        qed
      qed
    qed
  qed
  show "distinct ?rho"
    unfolding distinct_conv_nth len
  proof (intro allI impI)
    fix x y assume "x < n + m" "y < n + m" "x \<noteq> y"
    then consider "x < y" | "y < x" by (auto simp: neq_iff)
    then show "?rho ! x \<noteq> ?rho ! y"
    proof cases
      case 1
      from neq [OF 1 \<open>y < n + m\<close>] show ?thesis .
    next
      case 2
      from neq [OF 2 \<open>x < n + m\<close>] show ?thesis by simp
    qed
  qed
qed

section \<open>The first seed\<close>


section \<open>The reduction to the least cost\<close>


lemma copy_all:
  assumes "length G = n" "length f = n"
  shows "fold (\<lambda>i G. G[i := f ! i]) [0..<n] G = f"
proof (rule nth_equalityI)
  show "length (fold (\<lambda>i G. G[i := f ! i]) [0..<n] G) = length f" using assms by simp
next
  fix i assume "i < length (fold (\<lambda>i G. G[i := f ! i]) [0..<n] G)"
  then have i: "i < n" using assms by simp
  have "fold (\<lambda>i G. G[(\<lambda>i. i) i := f ! i]) [0..<n] G ! (\<lambda>i. i) i = f ! i"
  proof (rule fold_upd_hit)
    show "i \<in> set [0..<n]" using i by simp
    show "i < length G" using i assms by simp
  qed
  then show "fold (\<lambda>i G. G[i := f ! i]) [0..<n] G ! i = f ! i" by simp
qed

lemma computeOptimalMapping_step_eq:
  "computeOptimalMapping_step ged_of n m = getBestMappingFromSet_step (\<lambda>x. x) ged_of n m"
  by (rule ext)+ (simp add: computeOptimalMapping_step_def getBestMappingFromSet_step_def)

lemma best_fold_mono:
  assumes nn: "\<And>f r. 0 \<le> cost_of f r"
  shows "0 \<le> c0 \<Longrightarrow>
     0 \<le> fst (fold (getBestMappingFromSet_step refine cost_of n m) ms (c0, G1, G2, loc)) \<and>
     fst (fold (getBestMappingFromSet_step refine cost_of n m) ms (c0, G1, G2, loc)) \<le> c0"
proof (induction ms arbitrary: c0 G1 G2 loc)
  case Nil
  then show ?case by simp
next
  case (Cons ls ms)
  define loc' where "loc' = refine (decode_mapping n m ls loc)"
  define nc where "nc = cost_of (fst loc') (snd loc')"
  have nc0: "0 \<le> nc" by (simp add: nc_def nn)
  show ?case
  proof (cases "c0 > nc \<or> c0 = - 1")
    case True
    with Cons.prems have lt: "nc < c0" by auto
    have "getBestMappingFromSet_step refine cost_of n m ls (c0, G1, G2, loc)
          = (nc, fold (\<lambda>i G. G[i := fst loc' ! i]) [0..<n] G1,
                 fold (\<lambda>j G. G[j := snd loc' ! j]) [0..<m] G2, loc')"
      using True by (simp add: getBestMappingFromSet_step_def Let_def loc'_def nc_def)
    moreover from Cons.IH [OF nc0, of "fold (\<lambda>i G. G[i := fst loc' ! i]) [0..<n] G1"
        "fold (\<lambda>j G. G[j := snd loc' ! j]) [0..<m] G2" loc']
    have "0 \<le> fst (fold (getBestMappingFromSet_step refine cost_of n m) ms
              (nc, fold (\<lambda>i G. G[i := fst loc' ! i]) [0..<n] G1,
                   fold (\<lambda>j G. G[j := snd loc' ! j]) [0..<m] G2, loc'))"
      and "fst (fold (getBestMappingFromSet_step refine cost_of n m) ms
              (nc, fold (\<lambda>i G. G[i := fst loc' ! i]) [0..<n] G1,
                   fold (\<lambda>j G. G[j := snd loc' ! j]) [0..<m] G2, loc')) \<le> nc"
      by simp_all
    ultimately show ?thesis using lt by simp
  next
    case False
    then have "getBestMappingFromSet_step refine cost_of n m ls (c0, G1, G2, loc) = (c0, G1, G2, loc')"
      by (simp add: getBestMappingFromSet_step_def Let_def loc'_def nc_def)
    with Cons.IH [OF Cons.prems] show ?thesis by simp
  qed
qed

lemma best_fold_first:
  assumes nn: "\<And>f r. 0 \<le> cost_of f r"
  shows "fst (fold (getBestMappingFromSet_step refine cost_of n m) (ls # ms) (- 1, G1, G2, loc))
         \<le> cost_of (fst (refine (decode_mapping n m ls loc))) (snd (refine (decode_mapping n m ls loc)))
       \<and> 0 \<le> fst (fold (getBestMappingFromSet_step refine cost_of n m) (ls # ms) (- 1, G1, G2, loc))"
proof -
  define loc' where "loc' = refine (decode_mapping n m ls loc)"
  define nc where "nc = cost_of (fst loc') (snd loc')"
  have nc0: "0 \<le> nc" by (simp add: nc_def nn)
  have "getBestMappingFromSet_step refine cost_of n m ls (- 1, G1, G2, loc)
          = (nc, fold (\<lambda>i G. G[i := fst loc' ! i]) [0..<n] G1,
                 fold (\<lambda>j G. G[j := snd loc' ! j]) [0..<m] G2, loc')"
    by (simp add: getBestMappingFromSet_step_def Let_def loc'_def nc_def)
  with best_fold_mono [of cost_of nc refine n m ms, OF nn nc0] show ?thesis
    by (simp add: loc'_def nc_def)
qed



lemma GedFromMapping_nonneg:
  assumes "nonneg_costs cf"
  shows "0 \<le> GedFromMapping cf g1 g2 f n r m"
proof -
  from assms have c: "\<And>a b. 0 \<le> NodeSubstitutionCost cf a b" "\<And>a. 0 \<le> NodeDeletionCost cf a"
    "\<And>a. 0 \<le> NodeInsertionCost cf a" "\<And>a b. 0 \<le> EdgeSubstitutionCost cf a b"
    "\<And>a. 0 \<le> EdgeDeletionCost cf a" "\<And>a. 0 \<le> EdgeInsertionCost cf a"
    by (simp_all add: nonneg_costs_def)
  show ?thesis
    unfolding GedFromMapping_def Let_def
    by (intro add_nonneg_nonneg sum_list_nonneg)
      (auto intro!: sum_list_nonneg divide_nonneg_nonneg simp: c split: option.splits)
qed




lemma best_fold_inv:
  assumes nn: "\<And>f r. 0 \<le> cost_of f r"
    and len: "\<And>loc. length (fst (refine loc)) = n \<and> length (snd (refine loc)) = m"
  shows "0 \<le> c0 \<Longrightarrow> c0 = cost_of G1 G2 \<Longrightarrow> length G1 = n \<Longrightarrow> length G2 = m \<Longrightarrow>
     (case fold (getBestMappingFromSet_step refine cost_of n m) ms (c0, G1, G2, loc) of
        (c, G1', G2', loc') \<Rightarrow> c = cost_of G1' G2' \<and> c \<le> c0)"
proof (induction ms arbitrary: c0 G1 G2 loc)
  case Nil
  then show ?case by simp
next
  case (Cons ls ms)
  define loc' where "loc' = refine (decode_mapping n m ls loc)"
  define nc where "nc = cost_of (fst loc') (snd loc')"
  have nc0: "0 \<le> nc" by (simp add: nc_def nn)
  have l: "length (fst loc') = n" "length (snd loc') = m" using len by (simp_all add: loc'_def)
  show ?case
  proof (cases "c0 > nc \<or> c0 = - 1")
    case True
    with Cons.prems have lt: "nc < c0" by auto
    have c1: "fold (\<lambda>i G. G[i := fst loc' ! i]) [0..<n] G1 = fst loc'"
      by (rule copy_all) (use Cons.prems l in simp_all)
    have c2: "fold (\<lambda>j G. G[j := snd loc' ! j]) [0..<m] G2 = snd loc'"
      by (rule copy_all) (use Cons.prems l in simp_all)
    have st: "getBestMappingFromSet_step refine cost_of n m ls (c0, G1, G2, loc)
          = (nc, fst loc', snd loc', loc')"
      using True by (simp add: getBestMappingFromSet_step_def Let_def loc'_def [symmetric] nc_def [symmetric] c1 c2)
    have "case fold (getBestMappingFromSet_step refine cost_of n m) ms (nc, fst loc', snd loc', loc') of
        (c, G1', G2', loc'') \<Rightarrow> c = cost_of G1' G2' \<and> c \<le> nc"
      by (rule Cons.IH) (use nc0 l in \<open>simp_all add: nc_def\<close>)
    then show ?thesis using lt by (auto simp: st split: prod.splits)
  next
    case False
    then have st: "getBestMappingFromSet_step refine cost_of n m ls (c0, G1, G2, loc) = (c0, G1, G2, loc')"
      by (simp add: getBestMappingFromSet_step_def Let_def loc'_def [symmetric] nc_def [symmetric])
    have "case fold (getBestMappingFromSet_step refine cost_of n m) ms (c0, G1, G2, loc') of
        (c, G1', G2', loc'') \<Rightarrow> c = cost_of G1' G2' \<and> c \<le> c0"
      by (rule Cons.IH) (use Cons.prems in simp_all)
    then show ?thesis by (simp add: st)
  qed
qed

lemma getBestMappingFromSet_le_first:
  assumes nn: "\<And>f r. 0 \<le> cost_of f r"
    and len: "\<And>loc. length (fst (refine loc)) = n \<and> length (snd (refine loc)) = m"
    and out: "length (fst out) = n" "length (snd out) = m"
  shows "cost_of (fst (getBestMappingFromSet refine cost_of n m out (ls # ms)))
                 (snd (getBestMappingFromSet refine cost_of n m out (ls # ms)))
         \<le> cost_of (fst (refine (decode_mapping n m ls (replicate (n + 1) 0, replicate (m + 1) 0))))
                    (snd (refine (decode_mapping n m ls (replicate (n + 1) 0, replicate (m + 1) 0))))"
proof -
  define loc0 where "loc0 = (replicate (n + 1) (0::nat), replicate (m + 1) (0::nat))"
  define loc' where "loc' = refine (decode_mapping n m ls loc0)"
  define nc where "nc = cost_of (fst loc') (snd loc')"
  have nc0: "0 \<le> nc" by (simp add: nc_def nn)
  have l: "length (fst loc') = n" "length (snd loc') = m" using len by (simp_all add: loc'_def)
  have c1: "fold (\<lambda>i G. G[i := fst loc' ! i]) [0..<n] (fst out) = fst loc'"
    by (rule copy_all) (use out l in simp_all)
  have c2: "fold (\<lambda>j G. G[j := snd loc' ! j]) [0..<m] (snd out) = snd loc'"
    by (rule copy_all) (use out l in simp_all)
  have st: "getBestMappingFromSet_step refine cost_of n m ls (- 1, fst out, snd out, loc0)
          = (nc, fst loc', snd loc', loc')"
    by (simp add: getBestMappingFromSet_step_def Let_def loc'_def [symmetric] nc_def [symmetric] c1 c2)
  have gb: "getBestMappingFromSet refine cost_of n m out (ls # ms) =
      (case fold (getBestMappingFromSet_step refine cost_of n m) ms (nc, fst loc', snd loc', loc') of
         (cost, G1, G2, loc) \<Rightarrow> (G1, G2))"
    by (simp only: getBestMappingFromSet_def Let_def loc0_def [symmetric] fold_simps st)
  have "case fold (getBestMappingFromSet_step refine cost_of n m) ms (nc, fst loc', snd loc', loc') of
        (c, G1', G2', loc'') \<Rightarrow> c = cost_of G1' G2' \<and> c \<le> nc"
    by (rule best_fold_inv [OF nn len]) (use nc0 l in \<open>simp_all add: nc_def\<close>)
  then have "cost_of (fst (getBestMappingFromSet refine cost_of n m out (ls # ms)))
                 (snd (getBestMappingFromSet refine cost_of n m out (ls # ms))) \<le> nc"
    unfolding gb by (auto split: prod.splits)
  then show ?thesis by (simp only: nc_def loc'_def loc0_def)
qed


lemma sum_list_map_cong:
  fixes f g :: "'a \<Rightarrow> real"
  assumes "\<And>x. x \<in> set xs \<Longrightarrow> f x = g x"
  shows "(\<Sum>x\<leftarrow>xs. f x) = (\<Sum>x\<leftarrow>xs. g x)"
proof -
  have "map f xs = map g xs" by (rule map_cong [OF refl]) (rule assms)
  then show ?thesis by (rule arg_cong [where f = sum_list])
qed

lemma GedFromMapping_cong:
  assumes wf1: "wf_graph g1" and wf2: "wf_graph g2"
    and n: "n = Size g1" and m: "m = Size g2"
    and f: "\<And>i. i < n \<Longrightarrow> f ! i = f' ! i" and r: "\<And>j. j < m \<Longrightarrow> r ! j = r' ! j"
  shows "GedFromMapping cf g1 g2 f n r m = GedFromMapping cf g1 g2 f' n r' m"
proof -
  have in1: "j < n" if "i < n" "(j, e) \<in> set (getIncidentEdges g1 i)" for i j e
    using wf1 that unfolding wf_graph_def n by fast
  have in2: "l < m" if "k < m" "(l, e) \<in> set (getIncidentEdges g2 k)" for k l e
    using wf2 that unfolding wf_graph_def m by fast
  have 1: "(\<Sum>i\<leftarrow>[0..<n].
              if f ! i \<ge> m then NodeDeletionCost cf (nodes g1 ! i)
              else NodeSubstitutionCost cf (nodes g1 ! i) (nodes g2 ! (f ! i)))
         = (\<Sum>i\<leftarrow>[0..<n].
              if f' ! i \<ge> m then NodeDeletionCost cf (nodes g1 ! i)
              else NodeSubstitutionCost cf (nodes g1 ! i) (nodes g2 ! (f' ! i)))"
    by (rule sum_list_map_cong) (simp add: f)
  have 2: "(\<Sum>j\<leftarrow>[0..<m]. if r ! j \<ge> n then NodeInsertionCost cf (nodes g2 ! j) else 0)
         = (\<Sum>j\<leftarrow>[0..<m]. if r' ! j \<ge> n then NodeInsertionCost cf (nodes g2 ! j) else 0)"
    by (rule sum_list_map_cong) (simp add: r)
  have 3: "(\<Sum>i\<leftarrow>[0..<n]. \<Sum>(j, e1)\<leftarrow>getIncidentEdges g1 i.
                     if f ! i < m \<and> f ! j < m
                     then (case getEdge g2 (f ! i) (f ! j) of
                             Some e2 \<Rightarrow> EdgeSubstitutionCost cf e1 e2
                           | None \<Rightarrow> EdgeDeletionCost cf e1)
                     else EdgeDeletionCost cf e1)
         = (\<Sum>i\<leftarrow>[0..<n]. \<Sum>(j, e1)\<leftarrow>getIncidentEdges g1 i.
                     if f' ! i < m \<and> f' ! j < m
                     then (case getEdge g2 (f' ! i) (f' ! j) of
                             Some e2 \<Rightarrow> EdgeSubstitutionCost cf e1 e2
                           | None \<Rightarrow> EdgeDeletionCost cf e1)
                     else EdgeDeletionCost cf e1)"
  proof (rule sum_list_map_cong)
    fix i assume "i \<in> set [0..<n]"
    then have i: "i < n" by simp
    show "(\<Sum>(j, e1)\<leftarrow>getIncidentEdges g1 i.
                     if f ! i < m \<and> f ! j < m
                     then (case getEdge g2 (f ! i) (f ! j) of
                             Some e2 \<Rightarrow> EdgeSubstitutionCost cf e1 e2
                           | None \<Rightarrow> EdgeDeletionCost cf e1)
                     else EdgeDeletionCost cf e1)
        = (\<Sum>(j, e1)\<leftarrow>getIncidentEdges g1 i.
                     if f' ! i < m \<and> f' ! j < m
                     then (case getEdge g2 (f' ! i) (f' ! j) of
                             Some e2 \<Rightarrow> EdgeSubstitutionCost cf e1 e2
                           | None \<Rightarrow> EdgeDeletionCost cf e1)
                     else EdgeDeletionCost cf e1)"
    proof (rule sum_list_map_cong)
      fix x assume x: "x \<in> set (getIncidentEdges g1 i)"
      obtain j e where xx: "x = (j, e)" by (cases x)
      with x in1 [OF i] have "j < n" by simp
      then show "(case x of (j, e1) \<Rightarrow>
                     if f ! i < m \<and> f ! j < m
                     then (case getEdge g2 (f ! i) (f ! j) of
                             Some e2 \<Rightarrow> EdgeSubstitutionCost cf e1 e2
                           | None \<Rightarrow> EdgeDeletionCost cf e1)
                     else EdgeDeletionCost cf e1)
          = (case x of (j, e1) \<Rightarrow>
                     if f' ! i < m \<and> f' ! j < m
                     then (case getEdge g2 (f' ! i) (f' ! j) of
                             Some e2 \<Rightarrow> EdgeSubstitutionCost cf e1 e2
                           | None \<Rightarrow> EdgeDeletionCost cf e1)
                     else EdgeDeletionCost cf e1)"
        by (simp add: xx f i)
    qed
  qed
  have 4: "(\<Sum>k\<leftarrow>[0..<m]. \<Sum>(l, e2)\<leftarrow>getIncidentEdges g2 k.
                     if r ! k < n \<and> r ! l < n \<and> getEdge g1 (r ! k) (r ! l) \<noteq> None
                     then 0 else EdgeInsertionCost cf e2)
         = (\<Sum>k\<leftarrow>[0..<m]. \<Sum>(l, e2)\<leftarrow>getIncidentEdges g2 k.
                     if r' ! k < n \<and> r' ! l < n \<and> getEdge g1 (r' ! k) (r' ! l) \<noteq> None
                     then 0 else EdgeInsertionCost cf e2)"
  proof (rule sum_list_map_cong)
    fix k assume "k \<in> set [0..<m]"
    then have k: "k < m" by simp
    show "(\<Sum>(l, e2)\<leftarrow>getIncidentEdges g2 k.
                     if r ! k < n \<and> r ! l < n \<and> getEdge g1 (r ! k) (r ! l) \<noteq> None
                     then 0 else EdgeInsertionCost cf e2)
        = (\<Sum>(l, e2)\<leftarrow>getIncidentEdges g2 k.
                     if r' ! k < n \<and> r' ! l < n \<and> getEdge g1 (r' ! k) (r' ! l) \<noteq> None
                     then 0 else EdgeInsertionCost cf e2)"
    proof (rule sum_list_map_cong)
      fix x assume x: "x \<in> set (getIncidentEdges g2 k)"
      obtain l e where xx: "x = (l, e)" by (cases x)
      with x in2 [OF k] have "l < m" by simp
      then show "(case x of (l, e2) \<Rightarrow>
                     if r ! k < n \<and> r ! l < n \<and> getEdge g1 (r ! k) (r ! l) \<noteq> None
                     then 0 else EdgeInsertionCost cf e2)
          = (case x of (l, e2) \<Rightarrow>
                     if r' ! k < n \<and> r' ! l < n \<and> getEdge g1 (r' ! k) (r' ! l) \<noteq> None
                     then 0 else EdgeInsertionCost cf e2)"
        by (simp add: xx r k)
    qed
  qed
  show ?thesis unfolding GedFromMapping_def Let_def 1 2 3 4 ..
qed

section \<open>Sums over mappings and incident edges\<close>

lemma sum_list_upt_conv: "(\<Sum>i\<leftarrow>[0..<n]. f i) = (\<Sum>i<n. f i)"
  by (simp add: interv_sum_list_conv_sum_set_nat atLeast0LessThan)

lemma sum_list_assoc_conv:
  fixes h :: "nat \<Rightarrow> 'e \<Rightarrow> real"
  assumes "distinct (map fst xs)" "\<forall>(j, e)\<in>set xs. j < N"
  shows "(\<Sum>(j, e)\<leftarrow>xs. h j e) = (\<Sum>j<N. case map_of xs j of Some e \<Rightarrow> h j e | None \<Rightarrow> 0)"
  using assms
proof (induction xs)
  case Nil
  show ?case by simp
next
  case (Cons x xs)
  obtain a b where x: "x = (a, b)" by (cases x)
  from Cons.prems x have a: "a < N" and na: "a \<notin> fst ` set xs"
    and d: "distinct (map fst xs)" and r: "\<forall>(j, e)\<in>set xs. j < N" by auto
  from na have none: "map_of xs a = None" by (simp add: map_of_eq_None_iff)
  have "(\<Sum>j<N. case map_of (x # xs) j of Some e \<Rightarrow> h j e | None \<Rightarrow> 0)
      = (\<Sum>j<N. (if j = a then h a b else 0) + (case map_of xs j of Some e \<Rightarrow> h j e | None \<Rightarrow> 0))"
    by (rule sum.cong [OF refl]) (simp add: x none)
  also have "\<dots> = h a b + (\<Sum>j<N. case map_of xs j of Some e \<Rightarrow> h j e | None \<Rightarrow> 0)"
    using a by (simp add: sum.distrib)
  also have "\<dots> = (\<Sum>(j, e)\<leftarrow>x # xs. h j e)"
    using Cons.IH [OF d r] by (simp add: x)
  finally show ?case by simp
qed

lemma sum_reindex_mapping:
  fixes h :: "nat \<Rightarrow> nat \<Rightarrow> real"
  assumes v: "lsape_mapping n m fwd rv"
  shows "(\<Sum>i<n. if fwd ! i < m then h i (fwd ! i) else 0)
       = (\<Sum>k<m. if rv ! k < n then h (rv ! k) k else 0)"
proof -
  from v have c1: "\<And>i. i < n \<Longrightarrow> fwd ! i < m \<Longrightarrow> rv ! (fwd ! i) = i"
    and c2: "\<And>j. j < m \<Longrightarrow> rv ! j < n \<Longrightarrow> fwd ! (rv ! j) = j"
    by (simp_all add: lsape_mapping_def consistent_mapping_def)
  have "(\<Sum>i<n. if fwd ! i < m then h i (fwd ! i) else 0)
      = (\<Sum>i\<in>{i \<in> {..<n}. fwd ! i < m}. h i (fwd ! i))"
    by (rule sum.inter_filter [symmetric]) simp
  also have "\<dots> = (\<Sum>k\<in>{k \<in> {..<m}. rv ! k < n}. h (rv ! k) k)"
    by (rule sum.reindex_bij_witness [where i = "\<lambda>k. rv ! k" and j = "\<lambda>i. fwd ! i"])
       (auto simp: c1 c2)
  also have "\<dots> = (\<Sum>k<m. if rv ! k < n then h (rv ! k) k else 0)"
    by (rule sum.inter_filter) simp
  finally show ?thesis .
qed

lemma sum_mapping_cells:
  fixes F :: "nat \<Rightarrow> nat \<Rightarrow> real"
  shows "(\<Sum>((i, k), v)\<leftarrow>mapping_cells n m fwd rv. F i k * v)
       = (\<Sum>i<n. F i (fwd ! i)) + (\<Sum>k<m. if rv ! k \<ge> n then F (rv ! k) k else 0)"
  by (simp add: mapping_cells_def o_def sum_list_map_filter' sum_list_upt_conv)

lemma getEdge_self:
  assumes "simple_graph g" "i < Size g"
  shows "getEdge g i i = None"
proof -
  from assms have "\<forall>(j, e)\<in>set (getIncidentEdges g i). j \<noteq> i"
    by (simp add: simple_graph_def)
  then have "i \<notin> fst ` set (getIncidentEdges g i)" by force
  then show ?thesis by (simp add: getEdge_def map_of_eq_None_iff)
qed

lemma sum_incident_conv:
  fixes h :: "nat \<Rightarrow> 'e \<Rightarrow> real"
  assumes "simple_graph g" "i < Size g"
  shows "(\<Sum>(j, e)\<leftarrow>getIncidentEdges g i. h j e)
       = (\<Sum>j<Size g. case getEdge g i j of Some e \<Rightarrow> h j e | None \<Rightarrow> 0)"
  unfolding getEdge_def
proof (rule sum_list_assoc_conv)
  from assms show "distinct (map fst (getIncidentEdges g i))" by (simp add: simple_graph_def)
  from assms show "\<forall>(j, e)\<in>set (getIncidentEdges g i). j < Size g"
    by (simp add: simple_graph_def wf_graph_def)
qed

lemma insertion_blocks:
  fixes w :: "nat \<Rightarrow> nat \<Rightarrow> real" and E :: "nat \<Rightarrow> nat \<Rightarrow> bool"
  assumes v: "lsape_mapping n m fwd rv"
  shows "(\<Sum>p<m. \<Sum>l<m. if rv ! p < n \<and> rv ! l < n \<and> \<not> E (rv ! p) (rv ! l) then 0 else w p l)
       = (\<Sum>j<n. \<Sum>i<n. if fwd ! i < m then (if fwd ! j < m \<and> E i j then w (fwd ! i) (fwd ! j) else 0) else 0)
       + (\<Sum>j<n. \<Sum>p<m. if rv ! p = n \<and> fwd ! j < m then w p (fwd ! j) else 0)
       + (\<Sum>l<m. \<Sum>i<n. if rv ! l = n \<and> fwd ! i < m then w (fwd ! i) l else 0)
       + (\<Sum>l<m. \<Sum>p<m. if rv ! l = n \<and> rv ! p = n then w p l else 0)"
proof -
  from v have rle: "\<And>l. l < m \<Longrightarrow> rv ! l \<le> n" by (simp add: lsape_mapping_def)
  let ?MM = "\<lambda>p l. if rv ! l < n then (if rv ! p < n \<and> E (rv ! p) (rv ! l) then w p l else 0) else 0"
  let ?IM = "\<lambda>p l. if rv ! l < n then (if rv ! p = n then w p l else 0) else 0"
  let ?MI = "\<lambda>p l. if rv ! p < n then (if rv ! l = n then w p l else 0) else 0"
  let ?II = "\<lambda>p l. if rv ! l = n \<and> rv ! p = n then w p l else 0"
  have pw: "(if rv ! p < n \<and> rv ! l < n \<and> \<not> E (rv ! p) (rv ! l) then 0 else w p l)
      = ?MM p l + ?IM p l + ?MI p l + ?II p l" if "p < m" "l < m" for p l
    using rle [OF that(1)] rle [OF that(2)] by (auto simp: le_less)
  have "(\<Sum>p<m. \<Sum>l<m. if rv ! p < n \<and> rv ! l < n \<and> \<not> E (rv ! p) (rv ! l) then 0 else w p l)
      = (\<Sum>p<m. \<Sum>l<m. ?MM p l + ?IM p l + ?MI p l + ?II p l)"
    by (intro sum.cong refl) (simp only: pw lessThan_iff)
  also have "\<dots> = (\<Sum>p<m. \<Sum>l<m. ?MM p l) + (\<Sum>p<m. \<Sum>l<m. ?IM p l)
                   + (\<Sum>p<m. \<Sum>l<m. ?MI p l) + (\<Sum>p<m. \<Sum>l<m. ?II p l)"
    by (simp only: sum.distrib)
  finally have split: "(\<Sum>p<m. \<Sum>l<m. if rv ! p < n \<and> rv ! l < n \<and> \<not> E (rv ! p) (rv ! l) then 0 else w p l)
      = (\<Sum>p<m. \<Sum>l<m. ?MM p l) + (\<Sum>p<m. \<Sum>l<m. ?IM p l)
        + (\<Sum>p<m. \<Sum>l<m. ?MI p l) + (\<Sum>p<m. \<Sum>l<m. ?II p l)" .
  have mm: "(\<Sum>p<m. \<Sum>l<m. ?MM p l)
      = (\<Sum>j<n. \<Sum>i<n. if fwd ! i < m then (if fwd ! j < m \<and> E i j then w (fwd ! i) (fwd ! j) else 0) else 0)"
  proof -
    have "(\<Sum>p<m. \<Sum>l<m. ?MM p l)
        = (\<Sum>p<m. \<Sum>j<n. if fwd ! j < m then (if rv ! p < n \<and> E (rv ! p) j then w p (fwd ! j) else 0) else 0)"
      by (rule sum.cong [OF refl])
         (rule sum_reindex_mapping [OF v,
            of "\<lambda>j l. if rv ! p < n \<and> E (rv ! p) j then w p l else 0" for p, symmetric])
    also have "\<dots> = (\<Sum>j<n. \<Sum>p<m. if fwd ! j < m then (if rv ! p < n \<and> E (rv ! p) j then w p (fwd ! j) else 0) else 0)"
      by (rule sum.swap)
    also have "\<dots> = (\<Sum>j<n. \<Sum>p<m. if rv ! p < n then (if fwd ! j < m \<and> E (rv ! p) j then w p (fwd ! j) else 0) else 0)"
      by (intro sum.cong refl) auto
    also have "\<dots> = (\<Sum>j<n. \<Sum>i<n. if fwd ! i < m then (if fwd ! j < m \<and> E i j then w (fwd ! i) (fwd ! j) else 0) else 0)"
      by (rule sum.cong [OF refl])
         (rule sum_reindex_mapping [OF v,
            of "\<lambda>i p. if fwd ! j < m \<and> E i j then w p (fwd ! j) else 0" for j, symmetric])
    finally show ?thesis .
  qed
  have im: "(\<Sum>p<m. \<Sum>l<m. ?IM p l)
      = (\<Sum>j<n. \<Sum>p<m. if rv ! p = n \<and> fwd ! j < m then w p (fwd ! j) else 0)"
  proof -
    have "(\<Sum>p<m. \<Sum>l<m. ?IM p l)
        = (\<Sum>p<m. \<Sum>j<n. if fwd ! j < m then (if rv ! p = n then w p (fwd ! j) else 0) else 0)"
      by (rule sum.cong [OF refl])
         (rule sum_reindex_mapping [OF v,
            of "\<lambda>j l. if rv ! p = n then w p l else 0" for p, symmetric])
    also have "\<dots> = (\<Sum>j<n. \<Sum>p<m. if fwd ! j < m then (if rv ! p = n then w p (fwd ! j) else 0) else 0)"
      by (rule sum.swap)
    also have "\<dots> = (\<Sum>j<n. \<Sum>p<m. if rv ! p = n \<and> fwd ! j < m then w p (fwd ! j) else 0)"
      by (intro sum.cong refl) auto
    finally show ?thesis .
  qed
  have mi: "(\<Sum>p<m. \<Sum>l<m. ?MI p l)
      = (\<Sum>l<m. \<Sum>i<n. if rv ! l = n \<and> fwd ! i < m then w (fwd ! i) l else 0)"
  proof -
    have "(\<Sum>p<m. \<Sum>l<m. ?MI p l) = (\<Sum>l<m. \<Sum>p<m. ?MI p l)"
      by (rule sum.swap)
    also have "\<dots> = (\<Sum>l<m. \<Sum>i<n. if fwd ! i < m then (if rv ! l = n then w (fwd ! i) l else 0) else 0)"
      by (rule sum.cong [OF refl])
         (rule sum_reindex_mapping [OF v,
            of "\<lambda>i p. if rv ! l = n then w p l else 0" for l, symmetric])
    also have "\<dots> = (\<Sum>l<m. \<Sum>i<n. if rv ! l = n \<and> fwd ! i < m then w (fwd ! i) l else 0)"
      by (intro sum.cong refl) auto
    finally show ?thesis .
  qed
  have ii: "(\<Sum>p<m. \<Sum>l<m. ?II p l) = (\<Sum>l<m. \<Sum>p<m. ?II p l)"
    by (rule sum.swap)
  show ?thesis unfolding split mm im mi ii ..
qed

section \<open>The quadratic term\<close>

lemma QuadraticTerm_nth:
  assumes "j \<le> Size g1" "l \<le> Size g2"
  shows "QuadraticTerm d cf g1 g2 ms ! sub2ind j l (Size g1 + 1) =
     (if d then (\<Sum>((i, k), v)\<leftarrow>ms. quadratic_cost cf g1 g2 i j k l * v)
      else (\<Sum>((i, k), v)\<leftarrow>ms. quadratic_cost cf g1 g2 i j k l * v) * (1 / 2))"
proof -
  have "fold (\<lambda>(j, l) Q. Q[sub2ind j l (Size g1 + 1) :=
            (let acc = (\<Sum>((i, k), v)\<leftarrow>ms. quadratic_cost cf g1 g2 i j k l * v)
             in if \<not> d then acc * 0.5 else acc)])
          (List.product [0..<Size g1 + 1] [0..<Size g2 + 1]) (replicate ((Size g1 + 1) * (Size g2 + 1)) 0)
        ! sub2ind j l (Size g1 + 1)
     = (let acc = (\<Sum>((i, k), v)\<leftarrow>ms. quadratic_cost cf g1 g2 i j k l * v)
             in if \<not> d then acc * 0.5 else acc)"
    by (rule fold_matrix_nth) (use assms in auto)
  then show ?thesis by (simp add: QuadraticTerm_def Let_def)
qed

lemma length_QuadraticTerm [simp]:
  "length (QuadraticTerm d cf g1 g2 ms) = (Size g1 + 1) * (Size g2 + 1)"
  by (simp add: QuadraticTerm_def Let_def)

lemma XkD_IPFP_init:
  "XkD (IPFP_init cf g1 g2 X0) = QuadraticTerm (isDirected g1 \<and> isDirected g2) cf g1 g2
      (matrix_cells (Size g1) (Size g2) X0)"
  by (simp add: IPFP_init_def Let_def QuadraticTerm_matrix_def)

lemma XkD_IPFP_gradient_step:
  "XkD (IPFP_gradient_step solver cf g1 g2 st) =
     (case solver (LinearSubProblem (st\<lparr>XkD := QuadraticTerm_matrix (isDirected g1 \<and> isDirected g2) cf g1 g2 (Xk st)\<rparr>))
             (Size g1 + 1) (Size g2 + 1) of
        (G1_to_G2, G2_to_G1, u, v) \<Rightarrow>
          QuadraticTerm (isDirected g1 \<and> isDirected g2) cf g1 g2
            (mapping_cells (Size g1) (Size g2) G1_to_G2 G2_to_G1))"
  by (simp add: IPFP_gradient_step_def Let_def QuadraticTerm_mapping_def split: prod.splits)

text \<open>
  Claim C2, amended. The field \<^verbatim>\<open>_directed\<close> is the conjunction of the two flags, so every
  entry of the quadratic term that \<^verbatim>\<open>IPFPalgorithm\<close> computes (from the matrix \<open>Xk\<close> before
  the loop, from the solution of the LSAPE in the loop) is the accumulated sum when both
  graphs are directed and half of it otherwise, that is, as soon as one graph is
  undirected. A mixed pair is not rejected.
\<close>

theorem QuadraticTerm_halved_unless_both_directed:
  assumes "j \<le> Size g1" "l \<le> Size g2"
  shows "XkD (IPFP_init cf g1 g2 X0) ! sub2ind j l (Size g1 + 1) =
     (if isDirected g1 \<and> isDirected g2
      then (\<Sum>((i, k), v)\<leftarrow>matrix_cells (Size g1) (Size g2) X0. quadratic_cost cf g1 g2 i j k l * v)
      else (\<Sum>((i, k), v)\<leftarrow>matrix_cells (Size g1) (Size g2) X0. quadratic_cost cf g1 g2 i j k l * v) * (1 / 2))
    \<and> (case solver (LinearSubProblem (st\<lparr>XkD := QuadraticTerm_matrix (isDirected g1 \<and> isDirected g2) cf g1 g2 (Xk st)\<rparr>))
             (Size g1 + 1) (Size g2 + 1) of
        (G1_to_G2, G2_to_G1, u, v) \<Rightarrow>
          XkD (IPFP_gradient_step solver cf g1 g2 st) ! sub2ind j l (Size g1 + 1) =
           (if isDirected g1 \<and> isDirected g2
            then (\<Sum>((i, k), v)\<leftarrow>mapping_cells (Size g1) (Size g2) G1_to_G2 G2_to_G1.
                    quadratic_cost cf g1 g2 i j k l * v)
            else (\<Sum>((i, k), v)\<leftarrow>mapping_cells (Size g1) (Size g2) G1_to_G2 G2_to_G1.
                    quadratic_cost cf g1 g2 i j k l * v) * (1 / 2)))"
  using assms
  by (simp only: XkD_IPFP_init XkD_IPFP_gradient_step QuadraticTerm_nth split: prod.splits) simp


section \<open>One pass of the loop of IPFP\<close>


lemma update_last_pushed:
  "length xs = Suc q \<Longrightarrow> (xs @ [x])[Suc q := y] = xs @ [y]"
  by (simp add: list_update_append)

lemma nth_before_pushed:
  "length xs = Suc q \<Longrightarrow> (xs @ [x]) ! q = xs ! q"
  by (simp add: nth_append)

text \<open>
  Claim C3, amended. In a pass \<open>k\<close> of the loop, with \<open>b\<close> the binary matrix of the LSAPE
  solution on the gradient, \<open>R\<^sub>k\<close> its cost on the gradient, \<open>L\<close> its cost on \<open>C\<close>,
  \<open>S\<^sub>k\<^sub>+\<^sub>1\<close> its quadratic cost plus \<open>L\<close>, and \<open>L\<^sub>o\<^sub>l\<^sub>d\<close> the linear term before the pass:
  \<open>alpha = R\<^sub>k - 2 S\<^sub>k + L\<^sub>o\<^sub>l\<^sub>d\<close> and \<open>beta = S\<^sub>k\<^sub>+\<^sub>1 + S\<^sub>k - R\<^sub>k - L\<^sub>o\<^sub>l\<^sub>d\<close>; the step
  \<open>t0 = - alpha / (2 beta)\<close> is computed only when \<open>beta > 10\<^sup>-\<^sup>6\<close>; when \<open>beta < 10\<^sup>-\<^sup>5\<close>
  (strictly) or \<open>t0 \<ge> 1\<close> the iterate becomes \<open>b\<close> (and the linear term \<open>L\<close>); otherwise the
  iterate becomes \<open>Xk + t0 (b - Xk)\<close>, the last entry of \<open>S\<close> becomes
  \<open>S\<^sub>k - alpha\<^sup>2 / (4 beta)\<close> and the linear term the cost of the new iterate on \<open>C\<close>.
\<close>

theorem IPFP_iteration_branches:
  assumes inv: "length (S st) = Suc (k st)"
    and grad: "gradient = LinearSubProblem
        (st\<lparr>XkD := QuadraticTerm_matrix (isDirected g1 \<and> isDirected g2) cf g1 g2 (Xk st)\<rparr>)"
    and sol: "solver gradient (Size g1 + 1) (Size g2 + 1) = (G1_to_G2, G2_to_G1, u, v)"
    and b: "b = mappingsToMatrix G1_to_G2 G2_to_G1 (Size g1) (Size g2)"
    and Rk: "R_k = linearCost_mapping gradient G1_to_G2 G2_to_G1 (Size g1) (Size g2)"
    and L: "L = linearCost_mapping (Cmat st) G1_to_G2 G2_to_G1 (Size g1) (Size g2)"
    and Sk1: "S_k1 = linearCost_mapping
                (QuadraticTerm_mapping (isDirected g1 \<and> isDirected g2) cf g1 g2 G1_to_G2 G2_to_G1)
                G1_to_G2 G2_to_G1 (Size g1) (Size g2) + L"
    and alpha: "alpha = R_k - 2 * S st ! k st + Lterm st"
    and beta: "beta = S_k1 + S st ! k st - R_k - Lterm st"
    and st': "st' = IPFP_iteration solver epsilon cf g1 g2 st"
  shows "getAlpha (IPFP_gradient_step solver cf g1 g2 st) = alpha \<and>
         getBeta (IPFP_gradient_step solver cf g1 g2 st) = beta \<and>
         (beta < 1 / 100000 \<or> (1 / 1000000 < beta \<and> 1 \<le> - alpha / (2 * beta)) \<longrightarrow>
            Xk st' = b \<and> Lterm st' = L \<and> S st' = S st @ [S_k1]) \<and>
         (\<not> (beta < 1 / 100000 \<or> (1 / 1000000 < beta \<and> 1 \<le> - alpha / (2 * beta))) \<longrightarrow>
            Xk st' = map2 (\<lambda>x b. x + (- alpha / (2 * beta)) * (b - x)) (Xk st) b \<and>
            S st' = S st @ [S st ! k st - alpha ^ 2 / (4 * beta)] \<and>
            Lterm st' = linearCost_matrix (Cmat st) (Xk st') (Size g1 + 1) (Size g2 + 1)) \<and>
         k st' = k st + 1 \<and> length (S st') = Suc (k st')"
proof -
  define st6 where "st6 = IPFP_gradient_step solver cf g1 g2 st"
  have f: "Xk st6 = Xk st" "bkp1 st6 = b" "R st6 = R st @ [R_k]" "S st6 = S st @ [S_k1]"
    "Lterm st6 = L" "oldLterm st6 = Lterm st" "k st6 = k st" "Cmat st6 = Cmat st"
    using sol [unfolded grad]
    by (simp_all add: st6_def IPFP_gradient_step_def Let_def grad b Rk L Sk1 getCost_def)
  have a: "getAlpha st6 = alpha"
    by (simp add: getAlpha_def f alpha nth_before_pushed [OF inv])
  have be: "getBeta st6 = beta"
    by (simp add: getBeta_def f beta nth_before_pushed [OF inv])
  have st'': "st' = IPFP_update epsilon (Size g1) (Size g2) st6"
    by (simp add: st' IPFP_iteration_def st6_def)
  have cond: "(getBeta st6 < 0.00001 \<or> (if getBeta st6 > 0.000001 then - getAlpha st6 / (2 * getBeta st6) else 0) \<ge> 1)
      \<longleftrightarrow> (beta < 1 / 100000 \<or> (1 / 1000000 < beta \<and> 1 \<le> - alpha / (2 * beta)))"
    by (auto simp: a be)
  have t0: "\<not> beta < 1 / 100000 \<Longrightarrow>
      (if getBeta st6 > 0.000001 then - getAlpha st6 / (2 * getBeta st6) else 0) = - alpha / (2 * beta)"
    by (auto simp: a be)
  have r1: "beta < 1 / 100000 \<or> (1 / 1000000 < beta \<and> 1 \<le> - alpha / (2 * beta)) \<Longrightarrow>
      Xk st' = b \<and> Lterm st' = L \<and> S st' = S st @ [S_k1]"
    using cond by (simp add: st'' IPFP_update_def Let_def f)
  have r2: "\<not> (beta < 1 / 100000 \<or> (1 / 1000000 < beta \<and> 1 \<le> - alpha / (2 * beta))) \<Longrightarrow>
      Xk st' = map2 (\<lambda>x b. x + (- alpha / (2 * beta)) * (b - x)) (Xk st) b \<and>
      S st' = S st @ [S st ! k st - alpha ^ 2 / (4 * beta)] \<and>
      Lterm st' = linearCost_matrix (Cmat st) (Xk st') (Size g1 + 1) (Size g2 + 1)"
    using cond t0
    by (simp add: st'' IPFP_update_def Let_def f a be update_last_pushed [OF inv]
          nth_before_pushed [OF inv])
  have r3: "k st' = k st + 1 \<and> length (S st') = Suc (k st')"
    using inv by (simp add: st'' IPFP_update_def Let_def f)
  from a be r1 r2 r3 show ?thesis unfolding st6_def by blast
qed


section \<open>Sums of non-negative costs within the range of a double\<close>

lemma DBL_OVERFLOW_pos: "0 < DBL_OVERFLOW"
proof -
  have "(2::real) ^ 970 < 2 ^ 1024" by (rule power_strict_increasing) simp_all
  then show ?thesis by (simp add: DBL_OVERFLOW_def)
qed

lemma dadd_sum_infinite:
  "fold (\<lambda>a cost. dadd cost (Finite (h a))) xs PlusInfinity = PlusInfinity"
  by (induction xs) simp_all

lemma dadd_sum_nonneg:
  assumes h: "\<And>a. 0 \<le> h a"
  shows "0 \<le> c \<Longrightarrow> c < DBL_OVERFLOW \<Longrightarrow>
     fold (\<lambda>a cost. dadd cost (Finite (h a))) xs (Finite c) =
       (if c + (\<Sum>a\<leftarrow>xs. h a) < DBL_OVERFLOW then Finite (c + (\<Sum>a\<leftarrow>xs. h a)) else PlusInfinity)"
proof (induction xs arbitrary: c)
  case Nil
  then show ?case by simp
next
  case (Cons a xs)
  have s: "0 \<le> (\<Sum>a\<leftarrow>xs. h a)" by (rule sum_list_nonneg) (auto simp: h)
  show ?case
  proof (cases "c + h a < DBL_OVERFLOW")
    case True
    from Cons.prems h [of a] DBL_OVERFLOW_pos have n: "\<not> c + h a \<le> - DBL_OVERFLOW" by simp
    from Cons.prems h [of a] have c': "0 \<le> c + h a" by simp
    from True n have "dadd (Finite c) (Finite (h a)) = Finite (c + h a)" by simp
    then show ?thesis using Cons.IH [OF c' True] by (simp add: add.assoc)
  next
    case False
    then have "dadd (Finite c) (Finite (h a)) = PlusInfinity" by simp
    moreover from False s have "\<not> c + (h a + (\<Sum>a\<leftarrow>xs. h a)) < DBL_OVERFLOW" by simp
    ultimately show ?thesis by (simp add: dadd_sum_infinite)
  qed
qed

lemma DeletionCost_double_eq:
  assumes nn: "nonneg_costs cf"
  shows "DeletionCost_double cf g1 i =
     (if DeletionCost cf g1 i < DBL_OVERFLOW then Finite (DeletionCost cf g1 i) else PlusInfinity)"
proof -
  let ?h = "\<lambda>a. EdgeDeletionCost cf (snd (getIncidentEdges g1 i ! a))"
  let ?s = "\<Sum>a\<leftarrow>[0..<Degree g1 i]. ?h a"
  let ?v = "NodeDeletionCost cf (nodes g1 ! i)"
  from nn have h: "\<And>a. 0 \<le> ?h a" and v: "0 \<le> ?v" by (simp_all add: nonneg_costs_def)
  have s: "0 \<le> ?s" by (rule sum_list_nonneg) (auto simp: h)
  have f: "fold (\<lambda>a cost. dadd cost (Finite (?h a))) [0..<Degree g1 i] (Finite 0) =
       (if ?s < DBL_OVERFLOW then Finite ?s else PlusInfinity)"
    using dadd_sum_nonneg [of ?h 0 "[0..<Degree g1 i]", OF h] DBL_OVERFLOW_pos by simp
  show ?thesis
  proof (cases "?s < DBL_OVERFLOW")
    case True
    from s v DBL_OVERFLOW_pos have "\<not> ?s + ?v \<le> - DBL_OVERFLOW" by simp
    with True show ?thesis
      unfolding DeletionCost_double_def f DeletionCost_def by (simp add: not_less)
  next
    case False
    with v have "\<not> ?s + ?v < DBL_OVERFLOW" by simp
    with False show ?thesis
      unfolding DeletionCost_double_def f DeletionCost_def by simp
  qed
qed

lemma InsertionCost_double_eq:
  assumes nn: "nonneg_costs cf"
  shows "InsertionCost_double cf g2 j =
     (if InsertionCost cf g2 j < DBL_OVERFLOW then Finite (InsertionCost cf g2 j) else PlusInfinity)"
proof -
  let ?h = "\<lambda>b. EdgeInsertionCost cf (snd (getIncidentEdges g2 j ! b))"
  let ?s = "\<Sum>b\<leftarrow>[0..<Degree g2 j]. ?h b"
  let ?v = "NodeInsertionCost cf (nodes g2 ! j)"
  from nn have h: "\<And>a. 0 \<le> ?h a" and v: "0 \<le> ?v" by (simp_all add: nonneg_costs_def)
  have s: "0 \<le> ?s" by (rule sum_list_nonneg) (auto simp: h)
  have f: "fold (\<lambda>b cost. dadd cost (Finite (?h b))) [0..<Degree g2 j] (Finite 0) =
       (if ?s < DBL_OVERFLOW then Finite ?s else PlusInfinity)"
    using dadd_sum_nonneg [of ?h 0 "[0..<Degree g2 j]", OF h] DBL_OVERFLOW_pos by simp
  show ?thesis
  proof (cases "?s < DBL_OVERFLOW")
    case True
    from s v DBL_OVERFLOW_pos have "\<not> ?s + ?v \<le> - DBL_OVERFLOW" by simp
    with True show ?thesis
      unfolding InsertionCost_double_def f InsertionCost_def by (simp add: not_less)
  next
    case False
    with v have "\<not> ?s + ?v < DBL_OVERFLOW" by simp
    with False show ?thesis
      unfolding InsertionCost_double_def f InsertionCost_def by simp
  qed
qed

section \<open>The star-augmented cost matrix\<close>


lemma fold_upd_nonneg:
  fixes A :: "real list"
  assumes "\<forall>x\<in>set A. 0 \<le> x" "\<And>i. i \<in> set is \<Longrightarrow> 0 \<le> g i"
  shows "\<forall>x\<in>set (fold (\<lambda>i A. A[f i := g i]) is A). 0 \<le> x"
  using assms
proof (induction "is" arbitrary: A)
  case Nil
  then show ?case by simp
next
  case (Cons i "is")
  have "\<forall>x\<in>set (A[f i := g i]). 0 \<le> x"
  proof
    fix x assume "x \<in> set (A[f i := g i])"
    then have "x \<in> insert (g i) (set A)" using set_update_subset_insert by fast
    then show "0 \<le> x" using Cons.prems by auto
  qed
  then have "\<forall>x\<in>set (fold (\<lambda>i A. A[f i := g i]) is (A[f i := g i])). 0 \<le> x"
    by (rule Cons.IH) (use Cons.prems in auto)
  then show ?case by simp
qed

lemma fold_upd2_nonneg:
  fixes A :: "real list"
  assumes "\<forall>x\<in>set A. 0 \<le> x" "\<And>a b. (a, b) \<in> set ps \<Longrightarrow> 0 \<le> g a b"
  shows "\<forall>x\<in>set (fold (\<lambda>(a, b) A. A[f a b := g a b]) ps A). 0 \<le> x"
proof -
  have eq: "(\<lambda>(a, b) A. A[f a b := g a b]) = (\<lambda>q A. A[(\<lambda>(a, b). f a b) q := (\<lambda>(a, b). g a b) q])"
    by (simp add: fun_eq_iff)
  show ?thesis unfolding eq
    by (rule fold_upd_nonneg) (use assms in auto)
qed

lemma upd_nonneg:
  fixes A :: "real list"
  assumes "\<forall>x\<in>set A. 0 \<le> x" "0 \<le> y"
  shows "\<forall>x\<in>set (A[p := y]). 0 \<le> x"
proof
  fix x assume "x \<in> set (A[p := y])"
  then have "x \<in> insert y (set A)" using set_update_subset_insert by fast
  then show "0 \<le> x" using assms by auto
qed

lemma sum_list_nth_conv:
  "(\<Sum>a\<leftarrow>[0..<length xs]. f (xs ! a)) = (\<Sum>x\<leftarrow>xs. f x)"
proof -
  have "map (\<lambda>a. f (xs ! a)) [0..<length xs] = map f (map (\<lambda>a. xs ! a) [0..<length xs])"
    by simp
  also have "\<dots> = map f xs" by (simp only: map_nth)
  finally show ?thesis by simp
qed

lemma DeletionCost_eq:
  "DeletionCost cf g1 i = NodeDeletionCost cf (nodes g1 ! i)
      + (\<Sum>(t, e)\<leftarrow>getIncidentEdges g1 i. EdgeDeletionCost cf e)"
proof -
  have "(\<Sum>a\<leftarrow>[0..<length (getIncidentEdges g1 i)]. (\<lambda>x. EdgeDeletionCost cf (snd x)) (getIncidentEdges g1 i ! a))
        = (\<Sum>x\<leftarrow>getIncidentEdges g1 i. EdgeDeletionCost cf (snd x))"
    by (rule sum_list_nth_conv)
  then show ?thesis by (simp add: DeletionCost_def Degree_def case_prod_unfold)
qed

lemma InsertionCost_eq:
  "InsertionCost cf g2 j = NodeInsertionCost cf (nodes g2 ! j)
      + (\<Sum>(t, e)\<leftarrow>getIncidentEdges g2 j. EdgeInsertionCost cf e)"
proof -
  have "(\<Sum>a\<leftarrow>[0..<length (getIncidentEdges g2 j)]. (\<lambda>x. EdgeInsertionCost cf (snd x)) (getIncidentEdges g2 j ! a))
        = (\<Sum>x\<leftarrow>getIncidentEdges g2 j. EdgeInsertionCost cf (snd x))"
    by (rule sum_list_nth_conv)
  then show ?thesis by (simp add: InsertionCost_def Degree_def case_prod_unfold)
qed

lemma DeletionCost_nonneg: "nonneg_costs cf \<Longrightarrow> 0 \<le> DeletionCost cf g1 i"
  unfolding DeletionCost_def
  by (intro add_nonneg_nonneg sum_list_nonneg) (auto simp: nonneg_costs_def)

lemma InsertionCost_nonneg: "nonneg_costs cf \<Longrightarrow> 0 \<le> InsertionCost cf g2 j"
  unfolding InsertionCost_def
  by (intro add_nonneg_nonneg sum_list_nonneg) (auto simp: nonneg_costs_def)



lemma sub2ind_neq:
  assumes "r < n" "r' < n" "r \<noteq> r' \<or> c \<noteq> c'"
  shows "sub2ind r c n \<noteq> sub2ind r' c' n"
  using sub2ind_inj [OF assms(1,2), of c c'] assms(3) by blast

lemma length_bordered [simp]: "length (bordered n m sb dl ins) = (n + 1) * (m + 1)"
  by (simp add: bordered_def)

lemma bordered_sub:
  assumes "i < n" "j < m"
  shows "bordered n m sb dl ins ! sub2ind i j (n + 1) = sb i j"
proof -
  let ?A0 = "replicate ((n + 1) * (m + 1)) (0::real)"
  let ?A1 = "fold (\<lambda>(i, j) A. A[sub2ind i j (n + 1) := sb i j]) (List.product [0..<n] [0..<m]) ?A0"
  let ?A2 = "fold (\<lambda>i A. A[sub2ind i m (n + 1) := dl i]) [0..<n] ?A1"
  let ?A3 = "fold (\<lambda>j A. A[sub2ind n j (n + 1) := ins j]) [0..<m] ?A2"
  have 1: "?A1 ! sub2ind i j (n + 1) = sb i j"
  proof (rule fold_upd2_hit)
    show "(i, j) \<in> set (List.product [0..<n] [0..<m])" using assms by simp
    show "sub2ind i j (n + 1) < length ?A0"
      using sub2ind_less [of i "n + 1" j "m + 1"] assms by simp
    fix a' b' assume "(a', b') \<in> set (List.product [0..<n] [0..<m])"
      "sub2ind a' b' (n + 1) = sub2ind i j (n + 1)"
    then show "a' = i \<and> b' = j" using sub2ind_inj [of a' "n + 1" i b' j] assms by simp
  qed
  have 2: "?A2 ! sub2ind i j (n + 1) = ?A1 ! sub2ind i j (n + 1)"
  proof (rule fold_upd_miss)
    fix a assume "a \<in> set [0..<n]"
    then show "sub2ind a m (n + 1) \<noteq> sub2ind i j (n + 1)"
      using assms by (intro sub2ind_neq) auto
  qed
  have 3: "?A3 ! sub2ind i j (n + 1) = ?A2 ! sub2ind i j (n + 1)"
  proof (rule fold_upd_miss)
    fix b assume "b \<in> set [0..<m]"
    show "sub2ind n b (n + 1) \<noteq> sub2ind i j (n + 1)"
      using assms by (intro sub2ind_neq) auto
  qed
  have 4: "sub2ind n m (n + 1) \<noteq> sub2ind i j (n + 1)"
    using assms by (intro sub2ind_neq) auto
  show ?thesis unfolding bordered_def using 1 2 3 4 by simp
qed

lemma bordered_del:
  assumes "i < n"
  shows "bordered n m sb dl ins ! sub2ind i m (n + 1) = dl i"
proof -
  let ?A0 = "replicate ((n + 1) * (m + 1)) (0::real)"
  let ?A1 = "fold (\<lambda>(i, j) A. A[sub2ind i j (n + 1) := sb i j]) (List.product [0..<n] [0..<m]) ?A0"
  let ?A2 = "fold (\<lambda>i A. A[sub2ind i m (n + 1) := dl i]) [0..<n] ?A1"
  let ?A3 = "fold (\<lambda>j A. A[sub2ind n j (n + 1) := ins j]) [0..<m] ?A2"
  have 2: "?A2 ! sub2ind i m (n + 1) = dl i"
  proof (rule fold_upd_hit)
    show "i \<in> set [0..<n]" using assms by simp
    show "sub2ind i m (n + 1) < length ?A1"
      using sub2ind_less [of i "n + 1" m "m + 1"] assms by simp
    fix a' assume "a' \<in> set [0..<n]" "sub2ind a' m (n + 1) = sub2ind i m (n + 1)"
    then show "a' = i" using sub2ind_inj [of a' "n + 1" i m m] assms by simp
  qed
  have 3: "?A3 ! sub2ind i m (n + 1) = ?A2 ! sub2ind i m (n + 1)"
  proof (rule fold_upd_miss)
    fix b assume "b \<in> set [0..<m]"
    show "sub2ind n b (n + 1) \<noteq> sub2ind i m (n + 1)"
      using assms by (intro sub2ind_neq) auto
  qed
  have 4: "sub2ind n m (n + 1) \<noteq> sub2ind i m (n + 1)"
    using assms by (intro sub2ind_neq) auto
  show ?thesis unfolding bordered_def using 2 3 4 by simp
qed

lemma bordered_ins:
  assumes "j < m"
  shows "bordered n m sb dl ins ! sub2ind n j (n + 1) = ins j"
proof -
  let ?A0 = "replicate ((n + 1) * (m + 1)) (0::real)"
  let ?A1 = "fold (\<lambda>(i, j) A. A[sub2ind i j (n + 1) := sb i j]) (List.product [0..<n] [0..<m]) ?A0"
  let ?A2 = "fold (\<lambda>i A. A[sub2ind i m (n + 1) := dl i]) [0..<n] ?A1"
  let ?A3 = "fold (\<lambda>j A. A[sub2ind n j (n + 1) := ins j]) [0..<m] ?A2"
  have 3: "?A3 ! sub2ind n j (n + 1) = ins j"
  proof (rule fold_upd_hit)
    show "j \<in> set [0..<m]" using assms by simp
    show "sub2ind n j (n + 1) < length ?A2"
      using sub2ind_less [of n "n + 1" j "m + 1"] assms by simp
    fix b' assume "b' \<in> set [0..<m]" "sub2ind n b' (n + 1) = sub2ind n j (n + 1)"
    then show "b' = j" using sub2ind_inj [of n "n + 1" n b' j] by simp
  qed
  have 4: "sub2ind n m (n + 1) \<noteq> sub2ind n j (n + 1)"
    using assms by (intro sub2ind_neq) auto
  show ?thesis unfolding bordered_def using 3 4 by simp
qed

lemma bordered_corner: "bordered n m sb dl ins ! sub2ind n m (n + 1) = 0"
proof -
  have "sub2ind n m (n + 1) < (n + 1) * (m + 1)"
    using sub2ind_less [of n "n + 1" m "m + 1"] by simp
  then show ?thesis by (simp add: bordered_def)
qed

lemma bordered_nonneg:
  assumes "\<And>i j. i < n \<Longrightarrow> j < m \<Longrightarrow> 0 \<le> sb i j" "\<And>i. i < n \<Longrightarrow> 0 \<le> dl i"
    "\<And>j. j < m \<Longrightarrow> 0 \<le> ins j"
  shows "\<forall>x\<in>set (bordered n m sb dl ins). 0 \<le> x"
  unfolding bordered_def
  by (intro upd_nonneg fold_upd_nonneg fold_upd2_nonneg) (use assms in auto)

lemma local_C_bordered:
  "local_C cf g1 g2 i j = bordered (Degree g1 i) (Degree g2 j)
     (\<lambda>a b. EdgeSubstitutionCost cf (snd (getIncidentEdges g1 i ! a)) (snd (getIncidentEdges g2 j ! b)))
     (\<lambda>a. EdgeDeletionCost cf (snd (getIncidentEdges g1 i ! a)))
     (\<lambda>b. EdgeInsertionCost cf (snd (getIncidentEdges g2 j ! b)))"
  by (simp add: local_C_def bordered_def Let_def Degree_def)

lemma computeCostMatrix_bordered:
  "computeCostMatrix solver cf g1 g2 = bordered (Size g1) (Size g2)
     (SubstitutionCost solver cf g1 g2) (DeletionCost cf g1) (InsertionCost cf g2)"
  by (simp add: computeCostMatrix_def bordered_def Let_def)



lemma lsape_cost_nonneg:
  assumes map: "lsape_mapping n m f r" and len: "length C = (n + 1) * (m + 1)"
    and nn: "\<forall>x\<in>set C. 0 \<le> x"
  shows "0 \<le> lsape_cost C n m f r"
proof -
  from map have fle: "\<And>i. i < n \<Longrightarrow> f ! i \<le> m" and rle: "\<And>j. j < m \<Longrightarrow> r ! j \<le> n"
    by (auto simp: lsape_mapping_def)
  have cell: "0 \<le> C ! sub2ind a b (n + 1)" if "a \<le> n" "b \<le> m" for a b
  proof -
    have "sub2ind a b (n + 1) < length C"
      using sub2ind_less [of a "n + 1" b "m + 1"] that len by simp
    then show ?thesis using nn by simp
  qed
  have cell': "0 \<le> C ! sub2ind a b (Suc n)" if "a \<le> n" "b \<le> m" for a b
    using cell [OF that] by simp
  have 1: "0 \<le> (\<Sum>i\<leftarrow>[0..<n]. C ! sub2ind i (f ! i) (n + 1))"
    by (rule sum_list_nonneg) (auto intro!: cell' dest: fle)
  have pos: "0 \<le> (if r ! j \<ge> n then C ! sub2ind (r ! j) j (n + 1) else 0)" if j: "j < m" for j
  proof (cases "r ! j \<ge> n")
    case True
    have "0 \<le> C ! sub2ind (r ! j) j (n + 1)"
      by (rule cell) (use rle [OF j] j in simp_all)
    then show ?thesis by (simp only: if_P [OF True])
  next
    case False
    then show ?thesis by simp
  qed
  have 2: "0 \<le> (\<Sum>j\<leftarrow>[0..<m]. if r ! j \<ge> n then C ! sub2ind (r ! j) j (n + 1) else 0)"
  proof (rule sum_list_nonneg)
    fix x assume "x \<in> set (map (\<lambda>j. if r ! j \<ge> n then C ! sub2ind (r ! j) j (n + 1) else 0) [0..<m])"
    then obtain j where j: "j < m"
      and x: "x = (if r ! j \<ge> n then C ! sub2ind (r ! j) j (n + 1) else 0)"
      by auto
    show "0 \<le> x" unfolding x by (rule pos [OF j])
  qed
  from 1 2 show ?thesis by (simp add: lsape_cost_def)
qed

lemma local_C_nonneg: "nonneg_costs cf \<Longrightarrow> \<forall>x\<in>set (local_C cf g1 g2 i j). 0 \<le> x"
  unfolding local_C_bordered by (rule bordered_nonneg) (simp_all add: nonneg_costs_def)

lemma SubstitutionCost_solved:
  assumes "solver (local_C cf g1 g2 i j) (Degree g1 i + 1) (Degree g2 j + 1) = (rho, varrho, u, v)"
    and "lsape_solves solver (local_C cf g1 g2 i j) (Degree g1 i) (Degree g2 j)"
  shows "SubstitutionCost solver cf g1 g2 i j =
           NodeSubstitutionCost cf (nodes g1 ! i) (nodes g2 ! j)
             + lsape_cost (local_C cf g1 g2 i j) (Degree g1 i) (Degree g2 j) rho varrho"
    and "SubstitutionCost solver cf g1 g2 i j =
           NodeSubstitutionCost cf (nodes g1 ! i) (nodes g2 ! j)
             + ((\<Sum>a\<leftarrow>[0..<Degree g1 i + 1]. u ! a) + (\<Sum>b\<leftarrow>[0..<Degree g2 j + 1]. v ! b))"
    and "lsape_optimal (local_C cf g1 g2 i j) (Degree g1 i) (Degree g2 j) rho varrho"
  using assms by (simp_all add: SubstitutionCost_def lsape_solves_def Let_def)

lemma SubstitutionCost_nonneg:
  assumes nn: "nonneg_costs cf"
    and sol: "lsape_solves solver (local_C cf g1 g2 i j) (Degree g1 i) (Degree g2 j)"
  shows "0 \<le> SubstitutionCost solver cf g1 g2 i j"
proof -
  obtain rho varrho u v where
    s: "solver (local_C cf g1 g2 i j) (Degree g1 i + 1) (Degree g2 j + 1) = (rho, varrho, u, v)"
    by (cases "solver (local_C cf g1 g2 i j) (Degree g1 i + 1) (Degree g2 j + 1)") auto
  from SubstitutionCost_solved(3) [OF s sol]
  have "lsape_mapping (Degree g1 i) (Degree g2 j) rho varrho" by (simp add: lsape_optimal_def)
  then have "0 \<le> lsape_cost (local_C cf g1 g2 i j) (Degree g1 i) (Degree g2 j) rho varrho"
    by (rule lsape_cost_nonneg) (simp_all add: local_C_nonneg [OF nn], simp add: local_C_bordered)
  moreover have "0 \<le> NodeSubstitutionCost cf (nodes g1 ! i) (nodes g2 ! j)"
    using nn by (simp add: nonneg_costs_def)
  ultimately show ?thesis using SubstitutionCost_solved(1) [OF s sol] by simp
qed



section \<open>The cells of the quadratic term and of the node matrix on a mapping\<close>

lemma quadratic_cost_rows:
  assumes s1: "simple_graph g1" and s2: "simple_graph g2"
    and v: "lsape_mapping (Size g1) (Size g2) fwd rv"
    and i: "i < Size g1" and j: "j < Size g1"
  shows "quadratic_cost cf g1 g2 i j (fwd ! i) (fwd ! j) =
     (case getEdge g1 i j of
        Some a \<Rightarrow> (if fwd ! i < Size g2 \<and> fwd ! j < Size g2
                   then (case getEdge g2 (fwd ! i) (fwd ! j) of
                           Some b \<Rightarrow> EdgeSubstitutionCost cf a b
                         | None \<Rightarrow> EdgeDeletionCost cf a)
                   else EdgeDeletionCost cf a)
      | None \<Rightarrow> (if fwd ! i < Size g2 \<and> fwd ! j < Size g2
                 then (case getEdge g2 (fwd ! i) (fwd ! j) of
                         Some b \<Rightarrow> EdgeInsertionCost cf b | None \<Rightarrow> 0)
                 else 0))"
proof (cases "i = j")
  case True
  have e1: "getEdge g1 j j = None" by (rule getEdge_self [OF s1 j])
  have e2: "fwd ! j < Size g2 \<Longrightarrow> getEdge g2 (fwd ! j) (fwd ! j) = None"
    by (rule getEdge_self [OF s2])
  show ?thesis using j by (simp add: True quadratic_cost_def e1 e2)
next
  case False
  from v have c1: "\<And>i. i < Size g1 \<Longrightarrow> fwd ! i < Size g2 \<Longrightarrow> rv ! (fwd ! i) = i"
    by (simp add: lsape_mapping_def consistent_mapping_def)
  have g: "fwd ! i \<noteq> fwd ! j \<or> Size g2 \<le> fwd ! i"
  proof (rule ccontr)
    assume "\<not> (fwd ! i \<noteq> fwd ! j \<or> Size g2 \<le> fwd ! i)"
    then have e: "fwd ! i = fwd ! j" and l: "fwd ! i < Size g2" by simp_all
    from e l have l': "fwd ! j < Size g2" by simp
    have "i = rv ! (fwd ! i)" by (rule c1 [OF i l, symmetric])
    also have "\<dots> = rv ! (fwd ! j)" by (simp only: e)
    also have "\<dots> = j" by (rule c1 [OF j l'])
    finally show False using False by simp
  qed
  with False have guard: "(i \<noteq> j \<or> Size g1 \<le> i) \<and> (fwd ! i \<noteq> fwd ! j \<or> Size g2 \<le> fwd ! i)"
    by simp
  have ij: "(\<not> Size g1 \<le> i \<and> \<not> Size g1 \<le> j) = True" using i j by simp
  have fl: "(\<not> Size g2 \<le> fwd ! i \<and> \<not> Size g2 \<le> fwd ! j) = (fwd ! i < Size g2 \<and> fwd ! j < Size g2)"
    by (simp add: not_le)
  show ?thesis
    unfolding quadratic_cost_def Let_def
    by (simp only: guard if_True ij fl) (auto split: option.splits)
qed

lemma quadratic_cost_eps_row:
  assumes v: "lsape_mapping (Size g1) (Size g2) fwd rv"
    and j: "j < Size g1" and p: "p < Size g2" and rp: "rv ! p = Size g1"
  shows "quadratic_cost cf g1 g2 (Size g1) j p (fwd ! j) =
     (if fwd ! j < Size g2
      then (case getEdge g2 p (fwd ! j) of Some b \<Rightarrow> EdgeInsertionCost cf b | None \<Rightarrow> 0)
      else 0)"
proof -
  from v have c1: "\<And>i. i < Size g1 \<Longrightarrow> fwd ! i < Size g2 \<Longrightarrow> rv ! (fwd ! i) = i"
    by (simp add: lsape_mapping_def consistent_mapping_def)
  have g: "p \<noteq> fwd ! j"
  proof
    assume e: "p = fwd ! j"
    with p have "fwd ! j < Size g2" by simp
    from c1 [OF j this] have "rv ! p = j" unfolding e .
    with rp j show False by simp
  qed
  show ?thesis using j p g
    by (auto simp: quadratic_cost_def Let_def not_le split: option.splits)
qed

lemma quadratic_cost_eps_cell:
  assumes v: "lsape_mapping (Size g1) (Size g2) fwd rv"
    and i: "i < Size g1" and l: "l < Size g2" and rl: "rv ! l = Size g1"
  shows "quadratic_cost cf g1 g2 i (Size g1) (fwd ! i) l =
     (if fwd ! i < Size g2
      then (case getEdge g2 (fwd ! i) l of Some b \<Rightarrow> EdgeInsertionCost cf b | None \<Rightarrow> 0)
      else 0)"
proof -
  from v have c1: "\<And>i. i < Size g1 \<Longrightarrow> fwd ! i < Size g2 \<Longrightarrow> rv ! (fwd ! i) = i"
    by (simp add: lsape_mapping_def consistent_mapping_def)
  have g: "fwd ! i \<noteq> l"
  proof
    assume e: "fwd ! i = l"
    with l have "fwd ! i < Size g2" by simp
    from c1 [OF i this] have "rv ! l = i" unfolding e .
    with rl i show False by simp
  qed
  show ?thesis using i l g
    by (auto simp: quadratic_cost_def Let_def not_le split: option.splits)
qed

lemma quadratic_cost_eps_eps:
  assumes s2: "simple_graph g2" and p: "p < Size g2" and l: "l < Size g2"
  shows "quadratic_cost cf g1 g2 (Size g1) (Size g1) p l =
     (case getEdge g2 p l of Some b \<Rightarrow> EdgeInsertionCost cf b | None \<Rightarrow> 0)"
proof (cases "p = l")
  case True
  with getEdge_self [OF s2 l] l show ?thesis by (simp add: quadratic_cost_def)
next
  case False
  with p l show ?thesis
    by (auto simp: quadratic_cost_def Let_def not_le split: option.splits)
qed

lemma NodeCostMatrix_bordered:
  "(NodeCostMatrix cf g1 g2)[sub2ind (Size g1) (Size g2) (Size g1 + 1) := 0] =
     bordered (Size g1) (Size g2)
       (\<lambda>i j. NodeSubstitutionCost cf (nodes g1 ! i) (nodes g2 ! j))
       (\<lambda>i. NodeDeletionCost cf (nodes g1 ! i))
       (\<lambda>j. NodeInsertionCost cf (nodes g2 ! j))"
proof -
  have r: "(replicate N (0::real))[a := 0] = replicate N 0" for N a
  proof (cases "a < N")
    case True
    then show ?thesis by (intro nth_equalityI) (simp_all add: nth_list_update)
  next
    case False
    then show ?thesis by (simp add: list_update_beyond)
  qed
  show ?thesis unfolding NodeCostMatrix_def bordered_def Let_def r ..
qed

lemma NodeCostMatrix_cells:
  assumes "i \<le> Size g1" "j \<le> Size g2" "i < Size g1 \<or> j < Size g2"
  shows "NodeCostMatrix cf g1 g2 ! sub2ind i j (Size g1 + 1) =
     (if i < Size g1 then
        (if j < Size g2 then NodeSubstitutionCost cf (nodes g1 ! i) (nodes g2 ! j)
         else NodeDeletionCost cf (nodes g1 ! i))
      else NodeInsertionCost cf (nodes g2 ! j))"
proof -
  let ?sb = "\<lambda>i j. NodeSubstitutionCost cf (nodes g1 ! i) (nodes g2 ! j)"
  let ?dl = "\<lambda>i. NodeDeletionCost cf (nodes g1 ! i)"
  let ?ins = "\<lambda>j. NodeInsertionCost cf (nodes g2 ! j)"
  let ?B = "bordered (Size g1) (Size g2) ?sb ?dl ?ins"
  have ne: "sub2ind (Size g1) (Size g2) (Size g1 + 1) \<noteq> sub2ind i j (Size g1 + 1)"
  proof
    assume "sub2ind (Size g1) (Size g2) (Size g1 + 1) = sub2ind i j (Size g1 + 1)"
    with sub2ind_inj [of "Size g1" "Size g1 + 1" i "Size g2" j] assms
    show False by simp
  qed
  have "NodeCostMatrix cf g1 g2 ! sub2ind i j (Size g1 + 1)
      = (NodeCostMatrix cf g1 g2)[sub2ind (Size g1) (Size g2) (Size g1 + 1) := 0] ! sub2ind i j (Size g1 + 1)"
    by (rule nth_list_update_neq [OF ne, symmetric])
  also have "\<dots> = ?B ! sub2ind i j (Size g1 + 1)" by (simp only: NodeCostMatrix_bordered)
  finally have eq: "NodeCostMatrix cf g1 g2 ! sub2ind i j (Size g1 + 1) = ?B ! sub2ind i j (Size g1 + 1)" .
  show ?thesis
  proof (cases "i < Size g1")
    case True
    show ?thesis
    proof (cases "j < Size g2")
      case T2: True
      from bordered_sub [OF True T2, of ?sb ?dl ?ins] eq True T2 show ?thesis by simp
    next
      case False
      with assms have j: "j = Size g2" by simp
      from bordered_del [OF True, of "Size g2" ?sb ?dl ?ins] eq True show ?thesis by (simp add: j)
    qed
  next
    case False
    with assms have i: "i = Size g1" and j: "j < Size g2" by simp_all
    from bordered_ins [OF j, of "Size g1" ?sb ?dl ?ins] eq show ?thesis by (simp add: i)
  qed
qed

lemma linear_term_nodes:
  assumes v: "lsape_mapping (Size g1) (Size g2) fwd rv"
  shows "linearCost_mapping (NodeCostMatrix cf g1 g2) fwd rv (Size g1) (Size g2) =
     (\<Sum>i\<leftarrow>[0..<Size g1].
        if fwd ! i \<ge> Size g2 then NodeDeletionCost cf (nodes g1 ! i)
        else NodeSubstitutionCost cf (nodes g1 ! i) (nodes g2 ! (fwd ! i)))
   + (\<Sum>j\<leftarrow>[0..<Size g2]. if rv ! j \<ge> Size g1 then NodeInsertionCost cf (nodes g2 ! j) else 0)"
proof -
  from v have fle: "\<And>i. i < Size g1 \<Longrightarrow> fwd ! i \<le> Size g2"
    and rle: "\<And>j. j < Size g2 \<Longrightarrow> rv ! j \<le> Size g1"
    by (simp_all add: lsape_mapping_def)
  have 1: "(\<Sum>i\<leftarrow>[0..<Size g1]. NodeCostMatrix cf g1 g2 ! sub2ind i (fwd ! i) (Size g1 + 1))
      = (\<Sum>i\<leftarrow>[0..<Size g1].
          if fwd ! i \<ge> Size g2 then NodeDeletionCost cf (nodes g1 ! i)
          else NodeSubstitutionCost cf (nodes g1 ! i) (nodes g2 ! (fwd ! i)))"
  proof (rule sum_list_map_cong)
    fix i assume "i \<in> set [0..<Size g1]"
    then have i: "i < Size g1" by simp
    from NodeCostMatrix_cells [of i g1 "fwd ! i" g2 cf] i fle [OF i]
    show "NodeCostMatrix cf g1 g2 ! sub2ind i (fwd ! i) (Size g1 + 1)
        = (if fwd ! i \<ge> Size g2 then NodeDeletionCost cf (nodes g1 ! i)
           else NodeSubstitutionCost cf (nodes g1 ! i) (nodes g2 ! (fwd ! i)))"
      by (simp add: not_le)
  qed
  have 2: "(\<Sum>j\<leftarrow>[0..<Size g2].
              if rv ! j \<ge> Size g1 then NodeCostMatrix cf g1 g2 ! sub2ind (rv ! j) j (Size g1 + 1) else 0)
      = (\<Sum>j\<leftarrow>[0..<Size g2]. if rv ! j \<ge> Size g1 then NodeInsertionCost cf (nodes g2 ! j) else 0)"
  proof (rule sum_list_map_cong)
    fix j assume "j \<in> set [0..<Size g2]"
    then have j: "j < Size g2" by simp
    show "(if rv ! j \<ge> Size g1 then NodeCostMatrix cf g1 g2 ! sub2ind (rv ! j) j (Size g1 + 1) else 0)
        = (if rv ! j \<ge> Size g1 then NodeInsertionCost cf (nodes g2 ! j) else 0)"
    proof (cases "rv ! j \<ge> Size g1")
      case True
      with rle [OF j] have e: "rv ! j = Size g1" by simp
      from NodeCostMatrix_cells [of "Size g1" g1 j g2 cf] j show ?thesis by (simp add: e)
    next
      case False
      then show ?thesis by simp
    qed
  qed
  show ?thesis unfolding linearCost_mapping_def 1 2 ..
qed

lemma quadratic_term_on_mapping:
  assumes s1: "simple_graph g1" and s2: "simple_graph g2"
    and v: "lsape_mapping (Size g1) (Size g2) fwd rv"
  shows "linearCost_mapping (QuadraticTerm_mapping d cf g1 g2 fwd rv) fwd rv (Size g1) (Size g2) =
     (if d then 1 else 1 / 2) *
     ((\<Sum>i\<leftarrow>[0..<Size g1]. \<Sum>(j, e1)\<leftarrow>getIncidentEdges g1 i.
          if fwd ! i < Size g2 \<and> fwd ! j < Size g2
          then (case getEdge g2 (fwd ! i) (fwd ! j) of
                  Some e2 \<Rightarrow> EdgeSubstitutionCost cf e1 e2
                | None \<Rightarrow> EdgeDeletionCost cf e1)
          else EdgeDeletionCost cf e1)
    + (\<Sum>p\<leftarrow>[0..<Size g2]. \<Sum>(l, e2)\<leftarrow>getIncidentEdges g2 p.
          if rv ! p < Size g1 \<and> rv ! l < Size g1 \<and> getEdge g1 (rv ! p) (rv ! l) \<noteq> None
          then 0 else EdgeInsertionCost cf e2))"
proof -
  define n where "n = Size g1"
  define m where "m = Size g2"
  define fac :: real where "fac = (if d then 1 else 1 / 2)"
  define W where "W j l = (\<Sum>i<n. quadratic_cost cf g1 g2 i j (fwd ! i) l)
      + (\<Sum>p<m. if rv ! p \<ge> n then quadratic_cost cf g1 g2 (rv ! p) j p l else 0)" for j l
  define w where "w p l = (case getEdge g2 p l of Some b \<Rightarrow> EdgeInsertionCost cf b | None \<Rightarrow> 0)" for p l
  define D where "D i j = (case getEdge g1 i j of
        Some a \<Rightarrow> (if fwd ! i < m \<and> fwd ! j < m
                   then (case getEdge g2 (fwd ! i) (fwd ! j) of
                           Some b \<Rightarrow> EdgeSubstitutionCost cf a b
                         | None \<Rightarrow> EdgeDeletionCost cf a)
                   else EdgeDeletionCost cf a)
      | None \<Rightarrow> 0)" for i j
  define E where "E i j \<longleftrightarrow> getEdge g1 i j = None" for i j
  have v': "lsape_mapping n m fwd rv" using v by (simp add: n_def m_def)
  from v' have fle: "\<And>i. i < n \<Longrightarrow> fwd ! i \<le> m" and rle: "\<And>j. j < m \<Longrightarrow> rv ! j \<le> n"
    by (simp_all add: lsape_mapping_def)
  have cell: "QuadraticTerm_mapping d cf g1 g2 fwd rv ! sub2ind j l (n + 1) = fac * W j l"
    if "j \<le> n" "l \<le> m" for j l
  proof -
    from that have a: "j \<le> Size g1" "l \<le> Size g2" by (simp_all add: n_def m_def)
    have s: "(\<Sum>((i, p), x)\<leftarrow>mapping_cells n m fwd rv. quadratic_cost cf g1 g2 i j p l * x) = W j l"
      unfolding W_def by (rule sum_mapping_cells)
    show ?thesis
      unfolding QuadraticTerm_mapping_def n_def
      by (simp only: QuadraticTerm_nth [OF a]) (simp add: s [unfolded n_def m_def] fac_def)
  qed
  have lin: "linearCost_mapping (QuadraticTerm_mapping d cf g1 g2 fwd rv) fwd rv n m
      = fac * ((\<Sum>j<n. W j (fwd ! j)) + (\<Sum>l<m. if rv ! l \<ge> n then W n l else 0))"
  proof -
    have 1: "(\<Sum>j<n. QuadraticTerm_mapping d cf g1 g2 fwd rv ! sub2ind j (fwd ! j) (n + 1))
        = (\<Sum>j<n. fac * W j (fwd ! j))"
      by (rule sum.cong [OF refl]) (simp only: lessThan_iff cell fle less_imp_le)
    have 2: "(\<Sum>l<m. if rv ! l \<ge> n
                then QuadraticTerm_mapping d cf g1 g2 fwd rv ! sub2ind (rv ! l) l (n + 1) else 0)
        = (\<Sum>l<m. fac * (if rv ! l \<ge> n then W n l else 0))"
    proof (rule sum.cong [OF refl])
      fix l assume "l \<in> {..<m}"
      then have l: "l < m" by simp
      show "(if rv ! l \<ge> n
                then QuadraticTerm_mapping d cf g1 g2 fwd rv ! sub2ind (rv ! l) l (n + 1) else 0)
          = fac * (if rv ! l \<ge> n then W n l else 0)"
      proof (cases "rv ! l \<ge> n")
        case True
        with rle [OF l] have e: "rv ! l = n" by simp
        from cell [of n l] l show ?thesis by (simp add: e)
      next
        case False
        then show ?thesis by simp
      qed
    qed
    show ?thesis
      unfolding linearCost_mapping_def sum_list_upt_conv 1 2
      by (simp only: sum_distrib_left [symmetric] distrib_left)
  qed
  have Wrow: "W j (fwd ! j) = (\<Sum>i<n. D i j)
        + (\<Sum>i<n. if fwd ! i < m then (if fwd ! j < m \<and> E i j then w (fwd ! i) (fwd ! j) else 0) else 0)
        + (\<Sum>p<m. if rv ! p = n \<and> fwd ! j < m then w p (fwd ! j) else 0)" if j: "j < n" for j
  proof -
    have a: "(\<Sum>i<n. quadratic_cost cf g1 g2 i j (fwd ! i) (fwd ! j))
        = (\<Sum>i<n. D i j + (if fwd ! i < m then (if fwd ! j < m \<and> E i j then w (fwd ! i) (fwd ! j) else 0) else 0))"
    proof (rule sum.cong [OF refl])
      fix i assume "i \<in> {..<n}"
      then have i: "i < Size g1" by (simp add: n_def)
      from j have j': "j < Size g1" by (simp add: n_def)
      show "quadratic_cost cf g1 g2 i j (fwd ! i) (fwd ! j)
          = D i j + (if fwd ! i < m then (if fwd ! j < m \<and> E i j then w (fwd ! i) (fwd ! j) else 0) else 0)"
        unfolding quadratic_cost_rows [OF s1 s2 v i j'] D_def E_def w_def m_def
        by (simp split: option.splits)
    qed
    have b: "(\<Sum>p<m. if rv ! p \<ge> n then quadratic_cost cf g1 g2 (rv ! p) j p (fwd ! j) else 0)
        = (\<Sum>p<m. if rv ! p = n \<and> fwd ! j < m then w p (fwd ! j) else 0)"
    proof (rule sum.cong [OF refl])
      fix p assume "p \<in> {..<m}"
      then have p: "p < m" by simp
      show "(if rv ! p \<ge> n then quadratic_cost cf g1 g2 (rv ! p) j p (fwd ! j) else 0)
          = (if rv ! p = n \<and> fwd ! j < m then w p (fwd ! j) else 0)"
      proof (cases "rv ! p \<ge> n")
        case True
        with rle [OF p] have e: "rv ! p = n" by simp
        from j p e have "quadratic_cost cf g1 g2 (Size g1) j p (fwd ! j) =
           (if fwd ! j < Size g2
            then (case getEdge g2 p (fwd ! j) of Some b \<Rightarrow> EdgeInsertionCost cf b | None \<Rightarrow> 0)
            else 0)"
          by (intro quadratic_cost_eps_row [OF v]) (simp_all add: n_def m_def)
        then show ?thesis by (simp add: e w_def n_def m_def)
      next
        case False
        then show ?thesis by auto
      qed
    qed
    show ?thesis unfolding W_def a b by (simp only: sum.distrib)
  qed
  have Weps: "W n l = (\<Sum>i<n. if rv ! l = n \<and> fwd ! i < m then w (fwd ! i) l else 0)
        + (\<Sum>p<m. if rv ! l = n \<and> rv ! p = n then w p l else 0)"
    if l: "l < m" and rl: "rv ! l \<ge> n" for l
  proof -
    from rl rle [OF l] have e: "rv ! l = n" by simp
    have a: "(\<Sum>i<n. quadratic_cost cf g1 g2 i n (fwd ! i) l)
        = (\<Sum>i<n. if rv ! l = n \<and> fwd ! i < m then w (fwd ! i) l else 0)"
    proof (rule sum.cong [OF refl])
      fix i assume "i \<in> {..<n}"
      then have i: "i < n" by simp
      from i l e have "quadratic_cost cf g1 g2 i (Size g1) (fwd ! i) l =
         (if fwd ! i < Size g2
          then (case getEdge g2 (fwd ! i) l of Some b \<Rightarrow> EdgeInsertionCost cf b | None \<Rightarrow> 0)
          else 0)"
        by (intro quadratic_cost_eps_cell [OF v]) (simp_all add: n_def m_def)
      then show "quadratic_cost cf g1 g2 i n (fwd ! i) l
          = (if rv ! l = n \<and> fwd ! i < m then w (fwd ! i) l else 0)"
        by (simp add: e w_def n_def m_def)
    qed
    have b: "(\<Sum>p<m. if rv ! p \<ge> n then quadratic_cost cf g1 g2 (rv ! p) n p l else 0)
        = (\<Sum>p<m. if rv ! l = n \<and> rv ! p = n then w p l else 0)"
    proof (rule sum.cong [OF refl])
      fix p assume "p \<in> {..<m}"
      then have p: "p < m" by simp
      show "(if rv ! p \<ge> n then quadratic_cost cf g1 g2 (rv ! p) n p l else 0)
          = (if rv ! l = n \<and> rv ! p = n then w p l else 0)"
      proof (cases "rv ! p \<ge> n")
        case True
        with rle [OF p] have ep: "rv ! p = n" by simp
        from p l have "quadratic_cost cf g1 g2 (Size g1) (Size g1) p l =
           (case getEdge g2 p l of Some b \<Rightarrow> EdgeInsertionCost cf b | None \<Rightarrow> 0)"
          by (intro quadratic_cost_eps_eps [OF s2]) (simp_all add: m_def)
        then show ?thesis by (simp add: e ep w_def n_def)
      next
        case False
        then show ?thesis by auto
      qed
    qed
    show ?thesis unfolding W_def a b ..
  qed
  have rows: "(\<Sum>j<n. W j (fwd ! j))
      = (\<Sum>j<n. \<Sum>i<n. D i j)
        + (\<Sum>j<n. \<Sum>i<n. if fwd ! i < m then (if fwd ! j < m \<and> E i j then w (fwd ! i) (fwd ! j) else 0) else 0)
        + (\<Sum>j<n. \<Sum>p<m. if rv ! p = n \<and> fwd ! j < m then w p (fwd ! j) else 0)"
  proof -
    have "(\<Sum>j<n. W j (fwd ! j))
      = (\<Sum>j<n. (\<Sum>i<n. D i j)
        + (\<Sum>i<n. if fwd ! i < m then (if fwd ! j < m \<and> E i j then w (fwd ! i) (fwd ! j) else 0) else 0)
        + (\<Sum>p<m. if rv ! p = n \<and> fwd ! j < m then w p (fwd ! j) else 0))"
      by (rule sum.cong [OF refl]) (simp only: lessThan_iff Wrow)
    then show ?thesis by (simp only: sum.distrib)
  qed
  have epss: "(\<Sum>l<m. if rv ! l \<ge> n then W n l else 0)
      = (\<Sum>l<m. \<Sum>i<n. if rv ! l = n \<and> fwd ! i < m then w (fwd ! i) l else 0)
        + (\<Sum>l<m. \<Sum>p<m. if rv ! l = n \<and> rv ! p = n then w p l else 0)"
  proof -
    have "(\<Sum>l<m. if rv ! l \<ge> n then W n l else 0)
      = (\<Sum>l<m. (\<Sum>i<n. if rv ! l = n \<and> fwd ! i < m then w (fwd ! i) l else 0)
        + (\<Sum>p<m. if rv ! l = n \<and> rv ! p = n then w p l else 0))"
    proof (rule sum.cong [OF refl])
      fix l assume "l \<in> {..<m}"
      then have l: "l < m" by simp
      show "(if rv ! l \<ge> n then W n l else 0)
        = (\<Sum>i<n. if rv ! l = n \<and> fwd ! i < m then w (fwd ! i) l else 0)
        + (\<Sum>p<m. if rv ! l = n \<and> rv ! p = n then w p l else 0)"
      proof (cases "rv ! l \<ge> n")
        case True
        then show ?thesis by (simp only: if_True Weps [OF l True])
      next
        case False
        then have "rv ! l \<noteq> n" by simp
        with False show ?thesis by simp
      qed
    qed
    then show ?thesis by (simp only: sum.distrib)
  qed
  have E1: "(\<Sum>i\<leftarrow>[0..<Size g1]. \<Sum>(j, e1)\<leftarrow>getIncidentEdges g1 i.
          if fwd ! i < Size g2 \<and> fwd ! j < Size g2
          then (case getEdge g2 (fwd ! i) (fwd ! j) of
                  Some e2 \<Rightarrow> EdgeSubstitutionCost cf e1 e2
                | None \<Rightarrow> EdgeDeletionCost cf e1)
          else EdgeDeletionCost cf e1) = (\<Sum>j<n. \<Sum>i<n. D i j)"
  proof -
    have "(\<Sum>i\<leftarrow>[0..<Size g1]. \<Sum>(j, e1)\<leftarrow>getIncidentEdges g1 i.
          if fwd ! i < Size g2 \<and> fwd ! j < Size g2
          then (case getEdge g2 (fwd ! i) (fwd ! j) of
                  Some e2 \<Rightarrow> EdgeSubstitutionCost cf e1 e2
                | None \<Rightarrow> EdgeDeletionCost cf e1)
          else EdgeDeletionCost cf e1) = (\<Sum>i<n. \<Sum>j<n. D i j)"
      unfolding sum_list_upt_conv n_def
    proof (rule sum.cong [OF refl])
      fix i assume "i \<in> {..<Size g1}"
      then have i: "i < Size g1" by simp
      show "(\<Sum>(j, e1)\<leftarrow>getIncidentEdges g1 i.
          if fwd ! i < Size g2 \<and> fwd ! j < Size g2
          then (case getEdge g2 (fwd ! i) (fwd ! j) of
                  Some e2 \<Rightarrow> EdgeSubstitutionCost cf e1 e2
                | None \<Rightarrow> EdgeDeletionCost cf e1)
          else EdgeDeletionCost cf e1) = (\<Sum>j<Size g1. D i j)"
        unfolding D_def m_def by (rule sum_incident_conv [OF s1 i])
    qed
    also have "\<dots> = (\<Sum>j<n. \<Sum>i<n. D i j)" by (rule sum.swap)
    finally show ?thesis .
  qed
  have E2: "(\<Sum>p\<leftarrow>[0..<Size g2]. \<Sum>(l, e2)\<leftarrow>getIncidentEdges g2 p.
          if rv ! p < Size g1 \<and> rv ! l < Size g1 \<and> getEdge g1 (rv ! p) (rv ! l) \<noteq> None
          then 0 else EdgeInsertionCost cf e2)
      = (\<Sum>p<m. \<Sum>l<m. if rv ! p < n \<and> rv ! l < n \<and> \<not> E (rv ! p) (rv ! l) then 0 else w p l)"
    unfolding sum_list_upt_conv m_def
  proof (rule sum.cong [OF refl])
    fix p assume "p \<in> {..<Size g2}"
    then have p: "p < Size g2" by simp
    have "(\<Sum>(l, e2)\<leftarrow>getIncidentEdges g2 p.
          if rv ! p < Size g1 \<and> rv ! l < Size g1 \<and> getEdge g1 (rv ! p) (rv ! l) \<noteq> None
          then 0 else EdgeInsertionCost cf e2)
      = (\<Sum>l<Size g2. case getEdge g2 p l of
            Some e2 \<Rightarrow> (if rv ! p < Size g1 \<and> rv ! l < Size g1 \<and> getEdge g1 (rv ! p) (rv ! l) \<noteq> None
                        then 0 else EdgeInsertionCost cf e2)
          | None \<Rightarrow> 0)"
      by (rule sum_incident_conv [OF s2 p])
    also have "\<dots> = (\<Sum>l<Size g2. if rv ! p < n \<and> rv ! l < n \<and> \<not> E (rv ! p) (rv ! l) then 0 else w p l)"
      by (rule sum.cong [OF refl]) (auto simp: w_def E_def n_def split: option.splits)
    finally show "(\<Sum>(l, e2)\<leftarrow>getIncidentEdges g2 p.
          if rv ! p < Size g1 \<and> rv ! l < Size g1 \<and> getEdge g1 (rv ! p) (rv ! l) \<noteq> None
          then 0 else EdgeInsertionCost cf e2)
      = (\<Sum>l<Size g2. if rv ! p < n \<and> rv ! l < n \<and> \<not> E (rv ! p) (rv ! l) then 0 else w p l)" .
  qed
  show ?thesis
    unfolding E1 E2 insertion_blocks [OF v', of E w] fac_def [symmetric]
      lin [unfolded n_def m_def] rows [unfolded n_def m_def, folded n_def m_def]
    unfolding n_def [symmetric] m_def [symmetric] rows epss
    by (simp only: add.assoc)
qed

section \<open>The small instance, evaluated\<close>


lemma ex_sizes: "Size ex_g1 = 2" "Size ex_g2 = 2"
  by (simp_all add: Size_def ex_g1_def ex_g2_def)

lemma ex_computeCostMatrix:
  "computeCostMatrix ex_solver ex_cf ex_g1 ex_g2 =
     [2 / 1000000, 3 / 1000000, 1 / 1000000, 3 / 1000000, 2 / 1000000, 1 / 1000000,
      2 / 1000000, 2 / 1000000, 0]"
  by code_simp

lemma ex_bipartiteGed:
  "bipartiteGed ex_solver ex_solver ex_cf ex_g1 ex_g2 = Some (2 / 1000000, [0, 1], [0, 1])"
  by code_simp

lemma ex_seeds:
  "getKOptimalMappings ex_solver ex_enum ex_g1 ex_g2
     [2 / 1000000, 3 / 1000000, 1 / 1000000, 3 / 1000000, 2 / 1000000, 1 / 1000000,
      2 / 1000000, 2 / 1000000, 0] K = [[0, 1, 2, 3]]"
  by code_simp

lemma ex_decode:
  "decode_mapping 2 2 [0, 1, 2, 3] ([0, 0, 0], [0, 0, 0]) = ([0, 1, 0], [0, 1, 0])"
  by code_simp

lemma ex_X0: "mappingsToMatrix [0, 1, 0] [0, 1, 0] 2 2 = [1, 0, 0, 0, 1, 0, 0, 0, 0]"
  by code_simp

lemma ex_init: "IPFP_init ex_cf ex_g1 ex_g2 [1, 0, 0, 0, 1, 0, 0, 0, 0] = ex_st0"
  by code_simp

lemma ex_iteration: "IPFP_iteration ex_solver (1 / 1000) ex_cf ex_g1 ex_g2 ex_st0 = ex_st1"
  by code_simp

lemma ex_loop: "IPFP_loop ex_solver 100 (1 / 1000) ex_cf ex_g1 ex_g2 ex_st0 = ex_st1"
  by code_simp

lemma ex_projection:
  "ex_solver (map (\<lambda>x. 1 - x) (Xk ex_st1)) (Size ex_g1 + 1) (Size ex_g2 + 1)
     = ([1, 0], [1, 0], [0, 0, 0], [0, 0, 0])"
  by code_simp

lemma getBetterMapping_eval:
  assumes "mappingsToMatrix (fst loc) (snd loc) (Size g1) (Size g2) = X0"
    and "IPFP_init cf g1 g2 X0 = st0"
    and "IPFP_loop solver maxIter eps cf g1 g2 st0 = st1"
    and "solver (map (\<lambda>x. 1 - x) (Xk st1)) (Size g1 + 1) (Size g2 + 1) = (f, r, u, v)"
  shows "getBetterMapping solver maxIter eps cf g1 g2 loc = (f, r)"
  using assms by (simp add: getBetterMapping_def IPFPalgorithm_def)

lemma ex_X0':
  "mappingsToMatrix (fst ([0, 1, 0], [0, 1, 0])) (snd ([0, 1, 0], [0, 1, 0])) (Size ex_g1) (Size ex_g2)
     = [1, 0, 0, 0, 1, 0, 0, 0, 0]"
  by code_simp

lemma ex_getBetterMapping:
  "getBetterMapping ex_solver 100 (1 / 1000) ex_cf ex_g1 ex_g2 ([0, 1, 0], [0, 1, 0]) = ([1, 0], [1, 0])"
  by (rule getBetterMapping_eval [OF ex_X0' ex_init ex_loop ex_projection])

lemma ex_mappingCost: "mappingCost ex_cf ex_g1 ex_g2 [1, 0] [1, 0] = 4 / 1000000"
  by code_simp

lemma getBestMappingFromSet_single:
  assumes "decode_mapping n m ls (replicate (n + 1) 0, replicate (m + 1) 0) = loc"
    and "refine loc = (f, r)"
    and "fold (\<lambda>i G. G[i := f ! i]) [0..<n] (fst out) = f'"
    and "fold (\<lambda>j G. G[j := r ! j]) [0..<m] (snd out) = r'"
  shows "getBestMappingFromSet refine cost_of n m out [ls] = (f', r')"
  using assms by (simp add: getBestMappingFromSet_def getBestMappingFromSet_step_def Let_def)

lemma ex_decode':
  "decode_mapping (Size ex_g1) (Size ex_g2) [0, 1, 2, 3]
     (replicate (Size ex_g1 + 1) 0, replicate (Size ex_g2 + 1) 0) = ([0, 1, 0], [0, 1, 0])"
  by code_simp

lemma ex_copy:
  "fold (\<lambda>i G. G[i := [1, 0] ! i]) [0..<Size ex_g1]
     (fst (replicate (Size ex_g1) (0::nat), replicate (Size ex_g2) (0::nat))) = [1, 0]"
  "fold (\<lambda>i G. G[i := [1, 0] ! i]) [0..<Size ex_g2]
     (snd (replicate (Size ex_g1) (0::nat), replicate (Size ex_g2) (0::nat))) = [1, 0]"
  by code_simp+

lemma ex_getBestMappingFromSet:
  "getBestMappingFromSet (getBetterMapping ex_solver 100 (1 / 1000) ex_cf ex_g1 ex_g2)
     (mappingCost ex_cf ex_g1 ex_g2) (Size ex_g1) (Size ex_g2)
     (replicate (Size ex_g1) 0, replicate (Size ex_g2) 0) [[0, 1, 2, 3]] = ([1, 0], [1, 0])"
  using ex_decode' ex_getBetterMapping ex_copy
  by (rule getBestMappingFromSet_single
       [where refine = "getBetterMapping ex_solver 100 (1 / 1000) ex_cf ex_g1 ex_g2"])

lemma ged_eval:
  assumes "computeCostMatrix solver cf g1 g2 = C"
    and "getKOptimalMappings solver enum g1 g2 C K = seeds"
    and "getBestMappingFromSet (getBetterMapping solver maxIter eps cf g1 g2)
           (mappingCost cf g1 g2) (Size g1) (Size g2) (replicate (Size g1) 0, replicate (Size g2) 0) seeds = (f, r)"
    and "mappingCost cf g1 g2 f r = c"
  shows "ged solver enum maxIter eps cf g1 g2 K = (c, f, r)"
  using assms by (simp add: ged_def)

lemma ex_ged:
  "ged ex_solver ex_enum 100 (1 / 1000) ex_cf ex_g1 ex_g2 1 = (4 / 1000000, [1, 0], [1, 0])"
  by (rule ged_eval [OF ex_computeCostMatrix ex_seeds ex_getBestMappingFromSet ex_mappingCost])


section \<open>A number of seeds that is not positive\<close>

text \<open>
  Claim C9, amended. No error is raised for \<open>K \<le> 0\<close>: the list of seeds still holds the
  initial solution, and \<^verbatim>\<open>computeOptimalMapping\<close> returns a cost, which (for non-negative
  mapping costs) is non-negative and at most the cost of the decoded first seed.
\<close>

theorem computeOptimalMapping_nonpositive_K:
  assumes "K \<le> 0" and nn: "\<forall>f r. 0 \<le> ged_of f r"
  shows "getKOptimalMappings solver enum g1 g2 C K \<noteq> [] \<and>
         0 \<le> fst (computeOptimalMapping solver enum ged_of g1 g2 C K out) \<and>
         fst (computeOptimalMapping solver enum ged_of g1 g2 C K out)
           \<le> ged_of
               (fst (decode_mapping (Size g1) (Size g2) (hd (getKOptimalMappings solver enum g1 g2 C K))
                       (replicate (Size g1 + 1) 0, replicate (Size g2 + 1) 0)))
               (snd (decode_mapping (Size g1) (Size g2) (hd (getKOptimalMappings solver enum g1 g2 C K))
                       (replicate (Size g1 + 1) 0, replicate (Size g2 + 1) 0)))"
proof -
  have "getKOptimalMappings solver enum g1 g2 C K \<noteq> []"
    by (simp add: getKOptimalMappings_def Let_def split: prod.splits)
  then obtain ls ms where seeds: "getKOptimalMappings solver enum g1 g2 C K = ls # ms"
    by (auto simp: neq_Nil_conv)
  have nn': "\<And>f r. 0 \<le> ged_of f r" using nn by simp
  have fst_eq: "fst (computeOptimalMapping solver enum ged_of g1 g2 C K out)
      = fst (fold (getBestMappingFromSet_step (\<lambda>x. x) ged_of (Size g1) (Size g2)) (ls # ms)
              (- 1, fst out, snd out, (replicate (Size g1 + 1) 0, replicate (Size g2 + 1) 0)))"
    by (simp add: computeOptimalMapping_def Let_def seeds computeOptimalMapping_step_eq
          split: prod.splits)
  from best_fold_first [of ged_of "\<lambda>x. x" "Size g1" "Size g2" ls ms "fst out" "snd out"
      "(replicate (Size g1 + 1) 0, replicate (Size g2 + 1) 0)", OF nn']
  show ?thesis unfolding fst_eq seeds by simp
qed

lemma ex_nonneg_costs: "nonneg_costs ex_cf"
  by (simp add: nonneg_costs_def ex_cf_def)

theorem computeOptimalMapping_nonpositive_K_witness:
  "(0::int) \<le> 0 \<and>
   getKOptimalMappings ex_solver ex_enum ex_g1 ex_g2 (computeCostMatrix ex_solver ex_cf ex_g1 ex_g2) 0 \<noteq> [] \<and>
   0 \<le> fst (computeOptimalMapping ex_solver ex_enum (\<lambda>f r. GedFromMapping ex_cf ex_g1 ex_g2 f 2 r 2)
              ex_g1 ex_g2 (computeCostMatrix ex_solver ex_cf ex_g1 ex_g2) 0 ([0, 0], [0, 0]))"
proof -
  have nn: "\<forall>f r. 0 \<le> GedFromMapping ex_cf ex_g1 ex_g2 f 2 r 2"
    by (simp add: GedFromMapping_nonneg ex_nonneg_costs)
  have k: "(0::int) \<le> 0" by simp
  from computeOptimalMapping_nonpositive_K [OF k nn, where solver = ex_solver and enum = ex_enum
      and ?g1.0 = ex_g1 and ?g2.0 = ex_g2 and C = "computeCostMatrix ex_solver ex_cf ex_g1 ex_g2"
      and out = "([0, 0], [0, 0])"]
  show ?thesis by simp
qed

text \<open>On the small instance with \<open>K = 0\<close>: one seed is returned, and the driver returns its
  mapping and its cost.\<close>

theorem computeOptimalMapping_zero_K:
  "getKOptimalMappings ex_solver ex_enum ex_g1 ex_g2
     [2 / 1000000, 3 / 1000000, 1 / 1000000, 3 / 1000000, 2 / 1000000, 1 / 1000000,
      2 / 1000000, 2 / 1000000, 0] 0 = [[0, 1, 2, 3]] \<and>
   computeOptimalMapping ex_solver ex_enum (\<lambda>f r. GedFromMapping ex_cf ex_g1 ex_g2 f 2 r 2) ex_g1 ex_g2
     [2 / 1000000, 3 / 1000000, 1 / 1000000, 3 / 1000000, 2 / 1000000, 1 / 1000000,
      2 / 1000000, 2 / 1000000, 0] 0 ([0, 0], [0, 0]) = (2 / 1000000, [0, 1], [0, 1])"
  by code_simp


section \<open>The first seed on a small instance\<close>

lemma ex_t_sizes: "Size ex_t1 = 3"
  by (simp add: Size_def ex_t1_def)

lemma ex_solver3_mapping: "lsape_mapping (Size ex_t1) (Size ex_g2) [2, 0, 1] [1, 2]"
  by (simp add: ex_sizes ex_t_sizes lsape_mapping_def consistent_mapping_def less_Suc_eq
        numeral_2_eq_2 numeral_3_eq_3)

lemma ex_free_slots:
  "free_slots (Size ex_t1) (Size ex_g2) [2, 0, 1] = [1, 2]"
  "substituted_before (Size ex_t1) [1, 2] 0 = 0"
  "substituted_before (Size ex_t1) [1, 2] 1 = 1"
  unfolding ex_sizes ex_t_sizes by code_simp+


section \<open>The quadratic term on the small instance\<close>


theorem QuadraticTerm_halved_unless_both_directed_witness:
  "(0::nat) \<le> Size ex_g1 \<and> (0::nat) \<le> Size ex_g2 \<and>
   XkD (IPFP_init ex_cf ex_g1 ex_g2 [1, 0, 0, 0, 1, 0, 0, 0, 0]) ! sub2ind 0 0 (Size ex_g1 + 1) =
     (\<Sum>((i, k), v)\<leftarrow>matrix_cells (Size ex_g1) (Size ex_g2) [1, 0, 0, 0, 1, 0, 0, 0, 0].
        quadratic_cost ex_cf ex_g1 ex_g2 i 0 k 0 * v) * (1 / 2)"
proof -
  have d: "\<not> (isDirected ex_g1 \<and> isDirected ex_g2)" by (simp add: ex_g1_def)
  have h: "(0::nat) \<le> Size ex_g1" "(0::nat) \<le> Size ex_g2" by simp_all
  from QuadraticTerm_halved_unless_both_directed [OF h, of ex_cf "[1, 0, 0, 0, 1, 0, 0, 0, 0]" ex_solver ex_st0]
  have "XkD (IPFP_init ex_cf ex_g1 ex_g2 [1, 0, 0, 0, 1, 0, 0, 0, 0]) ! sub2ind 0 0 (Size ex_g1 + 1) =
     (if isDirected ex_g1 \<and> isDirected ex_g2
      then (\<Sum>((i, k), v)\<leftarrow>matrix_cells (Size ex_g1) (Size ex_g2) [1, 0, 0, 0, 1, 0, 0, 0, 0].
        quadratic_cost ex_cf ex_g1 ex_g2 i 0 k 0 * v)
      else (\<Sum>((i, k), v)\<leftarrow>matrix_cells (Size ex_g1) (Size ex_g2) [1, 0, 0, 0, 1, 0, 0, 0, 0].
        quadratic_cost ex_cf ex_g1 ex_g2 i 0 k 0 * v) * (1 / 2))"
    by (rule conjunct1)
  with d h show ?thesis by (simp only: if_False simp_thms)
qed

lemma ex_d_sizes: "Size ex_g1d = 2"
  by (simp add: Size_def ex_g1d_def ex_g1_def)

lemma ex_d_init: "IPFP_init ex_cf ex_g1d ex_g2 [1, 0, 0, 0, 1, 0, 0, 0, 0] = ex_st0"
  by code_simp

lemma ex_d_loop: "IPFP_loop ex_solver 100 (1 / 1000) ex_cf ex_g1d ex_g2 ex_st0 = ex_st1"
  by code_simp

lemma ex_d_X0:
  "mappingsToMatrix (fst ([0, 1, 0], [0, 1, 0])) (snd ([0, 1, 0], [0, 1, 0])) (Size ex_g1d) (Size ex_g2)
     = [1, 0, 0, 0, 1, 0, 0, 0, 0]"
  by code_simp

lemma ex_d_projection:
  "ex_solver (map (\<lambda>x. 1 - x) (Xk ex_st1)) (Size ex_g1d + 1) (Size ex_g2 + 1)
     = ([1, 0], [1, 0], [0, 0, 0], [0, 0, 0])"
  by code_simp

lemma ex_d_getBetterMapping:
  "getBetterMapping ex_solver 100 (1 / 1000) ex_cf ex_g1d ex_g2 ([0, 1, 0], [0, 1, 0]) = ([1, 0], [1, 0])"
  by (rule getBetterMapping_eval [OF ex_d_X0 ex_d_init ex_d_loop ex_d_projection])

lemma ex_d_unhalved:
  "QuadraticTerm True ex_cf ex_g1d ex_g2 (matrix_cells 2 2 [1, 0, 0, 0, 1, 0, 0, 0, 0])
     = [2 / 1000000, 0, 0, 0, 2 / 1000000, 0, 2 / 1000000, 2 / 1000000, 0]"
  by code_simp

lemma ex_d_flags: "isDirected ex_g1d" "\<not> isDirected ex_g2"
  by (simp_all add: ex_g1d_def ex_g2_def)

text \<open>A directed first graph with an undirected second graph: the pair is refined like any
  other, and the quadratic term is half of the accumulated sums.\<close>

theorem mixed_pair_halved_and_solved:
  "isDirected ex_g1d \<and> \<not> isDirected ex_g2 \<and>
   QuadraticTerm True ex_cf ex_g1d ex_g2 (matrix_cells 2 2 [1, 0, 0, 0, 1, 0, 0, 0, 0])
     = [2 / 1000000, 0, 0, 0, 2 / 1000000, 0, 2 / 1000000, 2 / 1000000, 0] \<and>
   XkD (IPFP_init ex_cf ex_g1d ex_g2 [1, 0, 0, 0, 1, 0, 0, 0, 0])
     = [1 / 1000000, 0, 0, 0, 1 / 1000000, 0, 1 / 1000000, 1 / 1000000, 0] \<and>
   getBetterMapping ex_solver 100 (1 / 1000) ex_cf ex_g1d ex_g2 ([0, 1, 0], [0, 1, 0]) = ([1, 0], [1, 0])"
proof -
  have "XkD (IPFP_init ex_cf ex_g1d ex_g2 [1, 0, 0, 0, 1, 0, 0, 0, 0])
     = [1 / 1000000, 0, 0, 0, 1 / 1000000, 0, 1 / 1000000, 1 / 1000000, 0]"
    unfolding ex_d_init by (simp add: ex_st0_def)
  with ex_d_flags ex_d_unhalved ex_d_getBetterMapping show ?thesis by blast
qed


section \<open>One pass on the small instance\<close>


theorem IPFP_iteration_branches_witness:
  "length (S ex_st0) = Suc (k ex_st0) \<and>
   getBeta (IPFP_gradient_step ex_solver ex_cf ex_g1 ex_g2 ex_st0) = 4 / 1000000 \<and>
   Xk (IPFP_iteration ex_solver (1 / 1000) ex_cf ex_g1 ex_g2 ex_st0) = [0, 1, 0, 1, 0, 0, 0, 0, 0] \<and>
   S (IPFP_iteration ex_solver (1 / 1000) ex_cf ex_g1 ex_g2 ex_st0) = S ex_st0 @ [4 / 1000000]"
proof -
  let ?G = "[2 / 1000000, 1 / 1000000, 1 / 1000000, 1 / 1000000, 2 / 1000000, 1 / 1000000,
             2 / 1000000, 2 / 1000000, 0 :: real]"
  have inv: "length (S ex_st0) = Suc (k ex_st0)" by (simp add: ex_st0_def)
  have grad: "?G = LinearSubProblem
        (ex_st0\<lparr>XkD := QuadraticTerm_matrix (isDirected ex_g1 \<and> isDirected ex_g2) ex_cf ex_g1 ex_g2 (Xk ex_st0)\<rparr>)"
    by code_simp
  have sol: "ex_solver ?G (Size ex_g1 + 1) (Size ex_g2 + 1)
      = ([1, 0], [1, 0], [0, 0, 0], [1 / 1000000, 1 / 1000000, 0])"
    by code_simp
  have b: "[0, 1, 0, 1, 0, 0, 0, 0, 0] = mappingsToMatrix [1, 0] [1, 0] (Size ex_g1) (Size ex_g2)"
    by code_simp
  have Rk: "2 / 1000000 = linearCost_mapping ?G [1, 0] [1, 0] (Size ex_g1) (Size ex_g2)"
    by code_simp
  have L: "2 / 1000000 = linearCost_mapping (Cmat ex_st0) [1, 0] [1, 0] (Size ex_g1) (Size ex_g2)"
    by code_simp
  have Sk1: "4 / 1000000 = linearCost_mapping
                (QuadraticTerm_mapping (isDirected ex_g1 \<and> isDirected ex_g2) ex_cf ex_g1 ex_g2 [1, 0] [1, 0])
                [1, 0] [1, 0] (Size ex_g1) (Size ex_g2) + 2 / 1000000"
    by code_simp
  have alpha: "- 2 / 1000000 = 2 / 1000000 - 2 * S ex_st0 ! k ex_st0 + Lterm ex_st0"
    by code_simp
  have beta: "4 / 1000000 = 4 / 1000000 + S ex_st0 ! k ex_st0 - 2 / 1000000 - Lterm ex_st0"
    by code_simp
  from IPFP_iteration_branches [where solver = ex_solver and st = ex_st0 and cf = ex_cf
      and ?g1.0 = ex_g1 and ?g2.0 = ex_g2 and epsilon = "1 / 1000",
      OF inv grad sol b Rk L Sk1 alpha beta refl] inv
  show ?thesis by simp
qed

text \<open>With a free node substitution, a node insertion at \<open>2.5 \<cdot> 10\<^sup>-\<^sup>6\<close> and an edge
  deletion at \<open>5 \<cdot> 10\<^sup>-\<^sup>6\<close>, the first pass from the identity mapping has \<open>S\<^sub>0 = S\<^sub>1 =
  5 \<cdot> 10\<^sup>-\<^sup>6\<close>, \<open>R\<^sub>0 = 0\<close> and no linear term, so \<open>beta = 10\<^sup>-\<^sup>5\<close> exactly and \<open>t0 = 1 / 2\<close>
  (every sum on the way adds zero or doubles a value, so the code computes the same \<open>beta\<close>
  in \<^verbatim>\<open>double\<close>): the line search is taken, and the new iterate is not the binary matrix
  \<open>b\<close>.\<close>

theorem IPFP_beta_on_threshold_line_search:
  "getBeta (IPFP_gradient_step ex_solver2 ex_cf2 ex_g1 ex_g2
      (IPFP_init ex_cf2 ex_g1 ex_g2 [1, 0, 0, 0, 1, 0, 0, 0, 0])) = 1 / 100000 \<and>
   bkp1 (IPFP_iteration ex_solver2 (1 / 1000) ex_cf2 ex_g1 ex_g2
      (IPFP_init ex_cf2 ex_g1 ex_g2 [1, 0, 0, 0, 1, 0, 0, 0, 0])) = [0, 1, 0, 1, 0, 0, 0, 0, 0] \<and>
   Xk (IPFP_iteration ex_solver2 (1 / 1000) ex_cf2 ex_g1 ex_g2
      (IPFP_init ex_cf2 ex_g1 ex_g2 [1, 0, 0, 0, 1, 0, 0, 0, 0]))
     = [1 / 2, 1 / 2, 0, 1 / 2, 1 / 2, 0, 0, 0, 0] \<and>
   Xk (IPFP_iteration ex_solver2 (1 / 1000) ex_cf2 ex_g1 ex_g2
      (IPFP_init ex_cf2 ex_g1 ex_g2 [1, 0, 0, 0, 1, 0, 0, 0, 0]))
     \<noteq> bkp1 (IPFP_iteration ex_solver2 (1 / 1000) ex_cf2 ex_g1 ex_g2
      (IPFP_init ex_cf2 ex_g1 ex_g2 [1, 0, 0, 0, 1, 0, 0, 0, 0]))"
proof -
  have 1: "getBeta (IPFP_gradient_step ex_solver2 ex_cf2 ex_g1 ex_g2
      (IPFP_init ex_cf2 ex_g1 ex_g2 [1, 0, 0, 0, 1, 0, 0, 0, 0])) = 1 / 100000"
    by code_simp
  have 2: "bkp1 (IPFP_iteration ex_solver2 (1 / 1000) ex_cf2 ex_g1 ex_g2
      (IPFP_init ex_cf2 ex_g1 ex_g2 [1, 0, 0, 0, 1, 0, 0, 0, 0])) = [0, 1, 0, 1, 0, 0, 0, 0, 0]"
    by code_simp
  have 3: "Xk (IPFP_iteration ex_solver2 (1 / 1000) ex_cf2 ex_g1 ex_g2
      (IPFP_init ex_cf2 ex_g1 ex_g2 [1, 0, 0, 0, 1, 0, 0, 0, 0]))
     = [1 / 2, 1 / 2, 0, 1 / 2, 1 / 2, 0, 0, 0, 0]"
    by code_simp
  show ?thesis unfolding 1 2 3 by simp
qed

section \<open>The two bodies of the reduction\<close>


text \<open>
  Claim C6. With two seeds whose mappings cost \<open>1.7\<close> and \<open>1.2\<close> (and a refinement method that
  leaves a mapping as it is), the body without OpenMP returns the second mapping, of least
  cost; the body with OpenMP stores both costs as the integer \<open>1\<close> and returns the first
  mapping, of cost \<open>1.7\<close>.
\<close>

theorem getBestMappingFromSet_omp_truncates:
  "mappingCost ex_cf3 ex_h1 ex_h2 [0] [0] = 17 / 10 \<and>
   mappingCost ex_cf3 ex_h1 ex_h2 [1] [1] = 12 / 10 \<and>
   getBestMappingFromSet (\<lambda>loc. loc) (mappingCost ex_cf3 ex_h1 ex_h2) 1 1 ([0], [0]) [[0, 1], [1, 0]]
     = ([1], [1]) \<and>
   getBestMappingFromSet_omp (\<lambda>loc. loc) (mappingCost ex_cf3 ex_h1 ex_h2) 1 1 ([0], [0]) [[0, 1], [1, 0]]
     = Some ([0], [0])"
proof -
  have 1: "mappingCost ex_cf3 ex_h1 ex_h2 [0] [0] = 17 / 10" by code_simp
  have 2: "mappingCost ex_cf3 ex_h1 ex_h2 [1] [1] = 12 / 10" by code_simp
  have 3: "getBestMappingFromSet (\<lambda>loc. loc) (mappingCost ex_cf3 ex_h1 ex_h2) 1 1 ([0], [0]) [[0, 1], [1, 0]]
     = ([1], [1])" by code_simp
  have 4: "getBestMappingFromSet_omp (\<lambda>loc. loc) (mappingCost ex_cf3 ex_h1 ex_h2) 1 1 ([0], [0]) [[0, 1], [1, 0]]
     = Some ([0], [0])" by code_simp
  from 1 2 3 4 show ?thesis by blast
qed


section \<open>The star-augmented matrix of two graphs with an edge each\<close>

lemma ex6_local_C:
  assumes "i < 2" "j < 2"
  shows "local_C ex_cf6 ex_g1 ex_g3 i j = [3, 1, 1, 0]"
    and "Degree ex_g1 i = 1" and "Degree ex_g3 j = 1"
    and "getIncidentEdges ex_g1 i = [(1 - i, 0)]" and "getIncidentEdges ex_g3 j = [(1 - j, 1)]"
proof -
  from assms have i: "i = 0 \<or> i = 1" and j: "j = 0 \<or> j = 1" by auto
  have l: "local_C ex_cf6 ex_g1 ex_g3 0 0 = [3, 1, 1, 0]"
    "local_C ex_cf6 ex_g1 ex_g3 0 1 = [3, 1, 1, 0]"
    "local_C ex_cf6 ex_g1 ex_g3 1 0 = [3, 1, 1, 0]"
    "local_C ex_cf6 ex_g1 ex_g3 1 1 = [3, 1, 1, 0]"
    by code_simp+
  have d: "Degree ex_g1 0 = 1" "Degree ex_g1 1 = 1" "Degree ex_g3 0 = 1" "Degree ex_g3 1 = 1"
    by code_simp+
  have e: "getIncidentEdges ex_g1 0 = [(1 - 0, 0)]" "getIncidentEdges ex_g1 1 = [(1 - 1, 0)]"
    "getIncidentEdges ex_g3 0 = [(1 - 0, 1)]" "getIncidentEdges ex_g3 1 = [(1 - 1, 1)]"
    by code_simp+
  from i j l show "local_C ex_cf6 ex_g1 ex_g3 i j = [3, 1, 1, 0]" by blast
  from i d show "Degree ex_g1 i = 1" by blast
  from j d show "Degree ex_g3 j = 1" by blast
  from i e show "getIncidentEdges ex_g1 i = [(1 - i, 0)]" by blast
  from j e show "getIncidentEdges ex_g3 j = [(1 - j, 1)]" by blast
qed

lemma ex6_solution: "ex_solver6 [3, 1, 1, 0] (1 + 1) (1 + 1) = ([1], [1], [1, 0], [1, 0])"
  by code_simp

lemma ex6_local_cost: "lsape_cost [3, 1, 1, 0] 1 1 [1] [1] = 2"
  by code_simp

lemma ex6_local_solves: "lsape_solves ex_solver6 [3, 1, 1, 0] 1 1"
proof -
  have m: "lsape_mapping 1 1 [1] [1]"
    by (simp add: lsape_mapping_def consistent_mapping_def)
  have o: "lsape_cost [3, 1, 1, 0] 1 1 [1] [1] \<le> lsape_cost [3, 1, 1, 0] 1 1 f r"
    if v: "lsape_mapping 1 1 f r" for f r
  proof -
    from v have f: "f ! 0 \<le> 1" and r: "r ! 0 \<le> 1"
      and c: "f ! 0 < 1 \<longrightarrow> r ! (f ! 0) = 0"
      and c': "r ! 0 < 1 \<longrightarrow> f ! (r ! 0) = 0"
      by (simp_all add: lsape_mapping_def consistent_mapping_def)
    from f consider "f ! 0 = 0" | "f ! 0 = 1" by (auto simp: le_Suc_eq)
    then show ?thesis
    proof cases
      case 1
      with c have "r ! 0 = 0" by simp
      with 1 show ?thesis unfolding ex6_local_cost by (simp add: lsape_cost_def sub2ind_def)
    next
      case 2
      from r consider "r ! 0 = 0" | "r ! 0 = 1" by (auto simp: le_Suc_eq)
      then show ?thesis
      proof cases
        case 1
        with c' have "f ! 0 = 0" by simp
        with 2 show ?thesis by simp
      next
        case b: 2
        with 2 show ?thesis unfolding ex6_local_cost by (simp add: lsape_cost_def sub2ind_def)
      qed
    qed
  qed
  have d: "(\<Sum>a\<leftarrow>[0..<1 + 1]. [1, 0 :: real] ! a) + (\<Sum>b\<leftarrow>[0..<1 + 1]. [1, 0 :: real] ! b)
           = lsape_cost [3, 1, 1, 0] 1 1 [1] [1]"
    by code_simp
  from m o have "lsape_optimal [3, 1, 1, 0] 1 1 [1] [1]"
    unfolding lsape_optimal_def by blast
  with d show ?thesis unfolding lsape_solves_def ex6_solution prod.case by blast
qed

lemma ex6_sizes: "Size ex_g3 = 2"
  by (simp add: Size_def ex_g3_def)

lemma ex6_nonneg_costs: "nonneg_costs ex_cf6"
  by (simp add: nonneg_costs_def ex_cf6_def)


lemma ex_overflow: "\<not> (2 * 10 ^ 308 :: real) < DBL_OVERFLOW" "(10 ^ 308 :: real) < DBL_OVERFLOW"
  unfolding DBL_OVERFLOW_def by simp_all


section \<open>The multistart cost and the LSAPE-only cost\<close>

text \<open>
  Claim C1, amended. For non-negative costs, well-formed graphs and a \<^verbatim>\<open>hungarianLSAPE\<close>
  that returns consistent mapping pairs of the sizes of the graphs: the first seed decodes
  to the assignment that \<^verbatim>\<open>hungarianLSAPE\<close> returns on the star-augmented matrix, and has
  its cost. The cost returned by the multistart pipeline is at most the cost of the IPFP
  refinement of that seed, whatever \<open>K\<close> is; the minimum over the seeds without refinement
  (\<^verbatim>\<open>MultiGed::computeOptimalMapping\<close>) is at most the cost of that assignment. This
  assignment is the one of the LSAPE-only approximation, and its cost the bipartite cost,
  when the solver \<^verbatim>\<open>my_solver\<close> of the bipartite object answers as \<^verbatim>\<open>hungarianLSAPE\<close> does on
  the star-augmented matrix. The refined cost itself is not bounded by the bipartite cost:
  the refinement of a seed replaces it also by a mapping of higher cost.
\<close>

theorem ged_le_refined_first_seed:
  assumes nn: "nonneg_costs cf"
    and wf1: "wf_graph g1" and wf2: "wf_graph g2"
    and len: "\<forall>X. case solver X (Size g1 + 1) (Size g2 + 1) of
                   (f, r, u, v) \<Rightarrow> length f = Size g1 \<and> length r = Size g2"
    and bip: "case solver (computeCostMatrix solver cf g1 g2) (Size g1 + 1) (Size g2 + 1) of
                (f, r, u, v) \<Rightarrow> lsape_mapping (Size g1) (Size g2) f r"
  shows "let n = Size g1; m = Size g2;
             C = computeCostMatrix solver cf g1 g2;
             (f, r, u, v) = solver C (n + 1) (m + 1);
             seed = decode_mapping n m (hd (getKOptimalMappings solver enum g1 g2 C K))
                      (replicate (n + 1) 0, replicate (m + 1) 0);
             refined = getBetterMapping solver maxIter epsilon cf g1 g2 seed
         in (\<forall>i<n. fst seed ! i = f ! i) \<and> (\<forall>j<m. snd seed ! j = r ! j) \<and>
            mappingCost cf g1 g2 (fst seed) (snd seed) = mappingCost cf g1 g2 f r \<and>
            fst (ged solver enum maxIter epsilon cf g1 g2 K)
              \<le> mappingCost cf g1 g2 (fst refined) (snd refined) \<and>
            fst (computeOptimalMapping solver enum (mappingCost cf g1 g2) g1 g2 C K out)
              \<le> mappingCost cf g1 g2 f r \<and>
            (my_solver C (n + 1) (m + 1) = solver C (n + 1) (m + 1) \<longrightarrow>
               bipartiteGed my_solver solver cf g1 g2 = Some (mappingCost cf g1 g2 f r, f, r))"
proof -
  define n where "n = Size g1"
  define m where "m = Size g2"
  define C where "C = computeCostMatrix solver cf g1 g2"
  define loc0 where "loc0 = (replicate (n + 1) (0::nat), replicate (m + 1) (0::nat))"
  obtain f r u v where sol: "solver C (Size g1 + 1) (Size g2 + 1) = (f, r, u, v)"
    by (cases "solver C (Size g1 + 1) (Size g2 + 1)") auto
  from bip have lm: "lsape_mapping n m f r"
    by (simp only: C_def [symmetric] sol prod.case n_def m_def)
  define ms where "ms = enum (computeCostMatrixLSAP C n m) (n + m) (rhoperm n m f r)
     (lsap_lu n m u) (lsap_lv n m v) K"
  have seeds: "getKOptimalMappings solver enum g1 g2 C K = rhoperm n m f r # ms"
    by (simp only: getKOptimalMappings_def Let_def sol n_def m_def ms_def prod.case)
  define seed where "seed = decode_mapping n m (rhoperm n m f r) loc0"
  define refined where "refined = getBetterMapping solver maxIter epsilon cf g1 g2 seed"
  have l0: "n \<le> length (fst loc0)" "m \<le> length (snd loc0)" by (simp_all add: loc0_def)
  have sf: "fst seed ! i = f ! i" if "i < n" for i
    unfolding seed_def by (rule decode_rhoperm(1) [OF lm l0 that])
  have sr: "snd seed ! j = r ! j" if "j < m" for j
    unfolding seed_def by (rule decode_rhoperm(2) [OF lm l0 that])
  have sc: "mappingCost cf g1 g2 (fst seed) (snd seed) = mappingCost cf g1 g2 f r"
    unfolding mappingCost_def
    by (rule GedFromMapping_cong [OF wf1 wf2]) (simp_all add: sf sr n_def m_def)
  have nn': "\<And>a b. 0 \<le> mappingCost cf g1 g2 a b"
    unfolding mappingCost_def by (rule GedFromMapping_nonneg [OF nn])
  have len': "length (fst (getBetterMapping solver maxIter epsilon cf g1 g2 loc)) = n \<and>
              length (snd (getBetterMapping solver maxIter epsilon cf g1 g2 loc)) = m" for loc
  proof -
    define X where "X = map (\<lambda>x. 1 - x)
       (Xk (IPFPalgorithm solver maxIter epsilon cf g1 g2
              (mappingsToMatrix (fst loc) (snd loc) (Size g1) (Size g2))))"
    obtain a b c d where s: "solver X (Size g1 + 1) (Size g2 + 1) = (a, b, c, d)"
      by (cases "solver X (Size g1 + 1) (Size g2 + 1)") auto
    from len [rule_format, of X] s have "length a = n \<and> length b = m"
      by (simp add: n_def m_def)
    moreover have "getBetterMapping solver maxIter epsilon cf g1 g2 loc = (a, b)"
      by (simp only: getBetterMapping_def Let_def X_def [symmetric] s prod.case)
    ultimately show ?thesis by simp
  qed
  have gfst: "fst (ged solver enum maxIter epsilon cf g1 g2 K)
      = mappingCost cf g1 g2
          (fst (getBestMappingFromSet (getBetterMapping solver maxIter epsilon cf g1 g2)
                  (mappingCost cf g1 g2) n m (replicate n 0, replicate m 0) (rhoperm n m f r # ms)))
          (snd (getBestMappingFromSet (getBetterMapping solver maxIter epsilon cf g1 g2)
                  (mappingCost cf g1 g2) n m (replicate n 0, replicate m 0) (rhoperm n m f r # ms)))"
    by (simp add: ged_def Let_def seeds [unfolded C_def] n_def m_def split: prod.splits)
  have g: "fst (ged solver enum maxIter epsilon cf g1 g2 K)
             \<le> mappingCost cf g1 g2 (fst refined) (snd refined)"
    unfolding gfst refined_def seed_def loc0_def
    by (rule getBestMappingFromSet_le_first [OF nn' len']) simp_all
  have cfst: "fst (computeOptimalMapping solver enum (mappingCost cf g1 g2) g1 g2 C K out)
      = fst (fold (getBestMappingFromSet_step (\<lambda>x. x) (mappingCost cf g1 g2) n m)
               (rhoperm n m f r # ms) (- 1, fst out, snd out, loc0))"
    by (simp add: computeOptimalMapping_def Let_def seeds computeOptimalMapping_step_eq
          n_def m_def loc0_def split: prod.splits)
  from best_fold_first [of "mappingCost cf g1 g2" "\<lambda>x. x" n m "rhoperm n m f r" ms
      "fst out" "snd out" loc0, OF nn']
  have c: "fst (computeOptimalMapping solver enum (mappingCost cf g1 g2) g1 g2 C K out)
             \<le> mappingCost cf g1 g2 f r"
    unfolding cfst sc [symmetric] seed_def by simp
  have bg: "bipartiteGed my_solver solver cf g1 g2 = Some (mappingCost cf g1 g2 f r, f, r)"
    if "my_solver C (n + 1) (m + 1) = (f, r, u, v)"
  proof -
    from that have "my_solver C (Size g1 + 1) (Size g2 + 1) = (f, r, u, v)"
      by (simp only: n_def m_def)
    then show ?thesis
      by (simp only: bipartiteGed_def getOptimalMapping_def option.case Let_def
            C_def [symmetric] prod.case)
  qed
  have hd: "hd (getKOptimalMappings solver enum g1 g2 C K) = rhoperm n m f r"
    by (simp add: seeds)
  have sol': "solver C (n + 1) (m + 1) = (f, r, u, v)" by (simp only: n_def m_def sol)
  show ?thesis
    unfolding Let_def n_def [symmetric] m_def [symmetric] C_def [symmetric] sol' prod.case hd
      loc0_def [symmetric] seed_def [symmetric] refined_def [symmetric]
    using sf sr sc g c bg by simp
qed

lemma ex_wf_graphs: "wf_graph ex_g1" "wf_graph ex_g2"
  by (simp_all add: wf_graph_def ex_g1_def ex_g2_def Size_def getIncidentEdges_def
        less_Suc_eq)

lemma ex_solver_lengths:
  "\<forall>X. case ex_solver X (Size ex_g1 + 1) (Size ex_g2 + 1) of
         (f, r, u, v) \<Rightarrow> length f = Size ex_g1 \<and> length r = Size ex_g2"
  by (simp add: ex_solver_def ex_g1_def ex_g2_def Size_def)

lemma ex_star_solution:
  "ex_solver (computeCostMatrix ex_solver ex_cf ex_g1 ex_g2) (Size ex_g1 + 1) (Size ex_g2 + 1) =
     ([0, 1], [0, 1], [1 / 1000000, 1 / 1000000, 0], [1 / 1000000, 1 / 1000000, 0])"
  unfolding ex_computeCostMatrix ex_sizes by code_simp

lemma ex_lsape_mapping:
  "case ex_solver (computeCostMatrix ex_solver ex_cf ex_g1 ex_g2) (Size ex_g1 + 1) (Size ex_g2 + 1) of
     (f, r, u, v) \<Rightarrow> lsape_mapping (Size ex_g1) (Size ex_g2) f r"
  by (simp only: ex_star_solution prod.case)
     (simp add: ex_sizes lsape_mapping_def consistent_mapping_def less_Suc_eq numeral_2_eq_2)

theorem ged_le_refined_first_seed_witness:
  "fst (ged ex_solver ex_enum 100 (1 / 1000) ex_cf ex_g1 ex_g2 1) \<le> 4 / 1000000 \<and>
   fst (computeOptimalMapping ex_solver ex_enum (mappingCost ex_cf ex_g1 ex_g2) ex_g1 ex_g2
          (computeCostMatrix ex_solver ex_cf ex_g1 ex_g2) 1 ([0, 0], [0, 0])) \<le> 2 / 1000000 \<and>
   bipartiteGed ex_solver ex_solver ex_cf ex_g1 ex_g2 = Some (2 / 1000000, [0, 1], [0, 1])"
proof -
  note t = ged_le_refined_first_seed [OF ex_nonneg_costs ex_wf_graphs ex_solver_lengths
      ex_lsape_mapping, where enum = ex_enum and K = 1 and maxIter = 100
      and epsilon = "1 / 1000" and out = "([0, 0], [0, 0])" and my_solver = ex_solver]
  have seed: "decode_mapping (Size ex_g1) (Size ex_g2)
      (hd (getKOptimalMappings ex_solver ex_enum ex_g1 ex_g2
             (computeCostMatrix ex_solver ex_cf ex_g1 ex_g2) 1))
      (replicate (Size ex_g1 + 1) 0, replicate (Size ex_g2 + 1) 0) = ([0, 1, 0], [0, 1, 0])"
    by code_simp
  have c: "mappingCost ex_cf ex_g1 ex_g2 [0, 1] [0, 1] = 2 / 1000000" by code_simp
  from t [unfolded Let_def seed ex_star_solution prod.case ex_getBetterMapping fst_conv snd_conv
      ex_mappingCost c]
  show ?thesis by simp
qed

text \<open>On the small instance with \<open>K = 1\<close> (and a bipartite object that solves with
  \<^verbatim>\<open>hungarianLSAPE\<close> too) the LSAPE-only mapping is the identity, of cost \<open>2 \<cdot> 10\<^sup>-\<^sup>6\<close>; IPFP
  moves from it to the swap of the two nodes, of cost \<open>4 \<cdot> 10\<^sup>-\<^sup>6\<close>, which the multistart
  pipeline returns.\<close>

theorem ged_worse_than_bipartiteGed:
  "bipartiteGed ex_solver ex_solver ex_cf ex_g1 ex_g2 = Some (2 / 1000000, [0, 1], [0, 1]) \<and>
   ged ex_solver ex_enum 100 (1 / 1000) ex_cf ex_g1 ex_g2 1 = (4 / 1000000, [1, 0], [1, 0]) \<and>
   \<not> (4 / 1000000 :: real) \<le> 2 / 1000000"
  by (simp add: ex_ged ex_bipartiteGed)

section \<open>The two ways to the cost of a mapping\<close>

text \<open>
  Claim C8, amended. For two simple graphs of the same directedness and a consistent mapping pair
  with entries up to epsilon: when \<open>XkD\<close> is the quadratic term of the mapping and \<open>Lterm\<close>
  the linear cost of the mapping on the node-only matrix (as the loop of \<^verbatim>\<open>IPFPalgorithm\<close>
  leaves them after \<^verbatim>\<open>QuadraticTerm\<close> and \<^verbatim>\<open>linearCost\<close> on the mapping), \<^verbatim>\<open>getCost\<close> on
  the mapping equals \<^verbatim>\<open>mappingCost\<close>, exactly, over the reals.
\<close>

theorem getCost_eq_mappingCost:
  assumes s1: "simple_graph g1" and s2: "simple_graph g2"
    and dir: "isDirected g1 = isDirected g2"
    and v: "lsape_mapping (Size g1) (Size g2) G1_to_G2 G2_to_G1"
    and X: "XkD st = QuadraticTerm_mapping (isDirected g1 \<and> isDirected g2) cf g1 g2 G1_to_G2 G2_to_G1"
    and C: "Cmat st = NodeCostMatrix cf g1 g2"
    and L: "Lterm st = linearCost_mapping (Cmat st) G1_to_G2 G2_to_G1 (Size g1) (Size g2)"
  shows "getCost st G1_to_G2 G2_to_G1 (Size g1) (Size g2) = mappingCost cf g1 g2 G1_to_G2 G2_to_G1"
proof (cases "isDirected g2")
  case True
  with dir have d: "isDirected g1" by simp
  show ?thesis
    unfolding getCost_def X L C mappingCost_def GedFromMapping_def Let_def
      quadratic_term_on_mapping [OF s1 s2 v] linear_term_nodes [OF v]
    using True d by simp
next
  case False
  with dir have d: "\<not> isDirected g1" by simp
  show ?thesis
    unfolding getCost_def X L C mappingCost_def GedFromMapping_def Let_def
      quadratic_term_on_mapping [OF s1 s2 v] linear_term_nodes [OF v]
    using False d by (simp add: algebra_simps)
qed

lemma ex_simple_graphs: "simple_graph ex_g1" "simple_graph ex_g2"
  by (simp_all add: simple_graph_def wf_graph_def ex_g1_def ex_g2_def Size_def
        getIncidentEdges_def less_Suc_eq)

lemma ex_swap_lsape_mapping: "lsape_mapping (Size ex_g1) (Size ex_g2) [1, 0] [1, 0]"
  by (simp add: lsape_mapping_def consistent_mapping_def ex_g1_def ex_g2_def Size_def
        less_Suc_eq numeral_2_eq_2)

lemma ex_st1_XkD:
  "XkD ex_st1 = QuadraticTerm_mapping (isDirected ex_g1 \<and> isDirected ex_g2) ex_cf ex_g1 ex_g2 [1, 0] [1, 0]"
  by code_simp

lemma ex_st1_Cmat: "Cmat ex_st1 = NodeCostMatrix ex_cf ex_g1 ex_g2"
  by code_simp

lemma ex_st1_Lterm:
  "Lterm ex_st1 = linearCost_mapping (Cmat ex_st1) [1, 0] [1, 0] (Size ex_g1) (Size ex_g2)"
  by code_simp

lemma ex_directed_eq: "isDirected ex_g1 = isDirected ex_g2"
  by (simp add: ex_g1_def ex_g2_def)

theorem getCost_eq_mappingCost_witness:
  "getCost ex_st1 [1, 0] [1, 0] (Size ex_g1) (Size ex_g2) = mappingCost ex_cf ex_g1 ex_g2 [1, 0] [1, 0]
   \<and> mappingCost ex_cf ex_g1 ex_g2 [1, 0] [1, 0] = 4 / 1000000"
  using getCost_eq_mappingCost [OF ex_simple_graphs ex_directed_eq ex_swap_lsape_mapping
      ex_st1_XkD ex_st1_Cmat ex_st1_Lterm] ex_mappingCost
  by (simp only: simp_thms)

lemma ex_s_pass:
  "IPFP_gradient_step ex_solver ex_cf4 ex_s1 ex_s2 (IPFP_init ex_cf4 ex_s1 ex_s2 [1, 0, 0, 0])
     = \<lparr>Xk = [1, 0, 0, 0], XkD = [0, 0, 0, 0], bkp1 = [1, 0, 0, 0], Cmat = [0, 0, 0, 0],
        Lterm = 0, oldLterm = 0, S = [0, 0], R = [0], k = 0, flag_continue = True\<rparr>"
  by code_simp

text \<open>Outside these graphs the two costs differ. On the directed graph \<open>ex_g1d\<close> with the
  undirected \<open>ex_g2\<close>, after the pass of the loop that leaves the swap of the two nodes,
  \<^verbatim>\<open>getCost\<close> gives \<open>4 \<cdot> 10\<^sup>-\<^sup>6\<close> (the quadratic term is halved) and \<^verbatim>\<open>mappingCost\<close>
  \<open>6 \<cdot> 10\<^sup>-\<^sup>6\<close>. On a node with a loop, mapped to a node without edge, the quadratic term
  skips the loop (\<open>i = j\<close>) and \<^verbatim>\<open>getCost\<close> gives \<open>0\<close>, while the deletion of the loop
  costs \<open>3\<close>.\<close>

theorem getCost_differs_from_mappingCost:
  "IPFP_loop ex_solver 100 (1 / 1000) ex_cf ex_g1d ex_g2
     (IPFP_init ex_cf ex_g1d ex_g2 (mappingsToMatrix [0, 1] [0, 1] 2 2)) = ex_st1 \<and>
   XkD ex_st1 = QuadraticTerm_mapping (isDirected ex_g1d \<and> isDirected ex_g2) ex_cf ex_g1d ex_g2 [1, 0] [1, 0] \<and>
   Cmat ex_st1 = NodeCostMatrix ex_cf ex_g1d ex_g2 \<and>
   Lterm ex_st1 = linearCost_mapping (Cmat ex_st1) [1, 0] [1, 0] (Size ex_g1d) (Size ex_g2) \<and>
   getCost ex_st1 [1, 0] [1, 0] (Size ex_g1d) (Size ex_g2) = 4 / 1000000 \<and>
   mappingCost ex_cf ex_g1d ex_g2 [1, 0] [1, 0] = 6 / 1000000 \<and>
   XkD (IPFP_gradient_step ex_solver ex_cf4 ex_s1 ex_s2 (IPFP_init ex_cf4 ex_s1 ex_s2 [1, 0, 0, 0]))
     = QuadraticTerm_mapping (isDirected ex_s1 \<and> isDirected ex_s2) ex_cf4 ex_s1 ex_s2 [0] [0] \<and>
   Cmat (IPFP_gradient_step ex_solver ex_cf4 ex_s1 ex_s2 (IPFP_init ex_cf4 ex_s1 ex_s2 [1, 0, 0, 0]))
     = NodeCostMatrix ex_cf4 ex_s1 ex_s2 \<and>
   Lterm (IPFP_gradient_step ex_solver ex_cf4 ex_s1 ex_s2 (IPFP_init ex_cf4 ex_s1 ex_s2 [1, 0, 0, 0]))
     = linearCost_mapping (NodeCostMatrix ex_cf4 ex_s1 ex_s2) [0] [0] (Size ex_s1) (Size ex_s2) \<and>
   getCost (IPFP_gradient_step ex_solver ex_cf4 ex_s1 ex_s2 (IPFP_init ex_cf4 ex_s1 ex_s2 [1, 0, 0, 0]))
     [0] [0] (Size ex_s1) (Size ex_s2) = 0 \<and>
   mappingCost ex_cf4 ex_s1 ex_s2 [0] [0] = 3"
proof -
  have x0: "mappingsToMatrix [0, 1] [0, 1] 2 2 = [1, 0, 0, 0, 1, 0, 0, 0, 0]" by code_simp
  have 1: "IPFP_loop ex_solver 100 (1 / 1000) ex_cf ex_g1d ex_g2
     (IPFP_init ex_cf ex_g1d ex_g2 (mappingsToMatrix [0, 1] [0, 1] 2 2)) = ex_st1"
    by (simp only: x0 ex_d_init ex_d_loop)
  have 2: "XkD ex_st1 = QuadraticTerm_mapping (isDirected ex_g1d \<and> isDirected ex_g2) ex_cf ex_g1d ex_g2 [1, 0] [1, 0]"
    by code_simp
  have 3: "Cmat ex_st1 = NodeCostMatrix ex_cf ex_g1d ex_g2" by code_simp
  have 4: "Lterm ex_st1 = linearCost_mapping (Cmat ex_st1) [1, 0] [1, 0] (Size ex_g1d) (Size ex_g2)"
    by code_simp
  have 5: "getCost ex_st1 [1, 0] [1, 0] (Size ex_g1d) (Size ex_g2) = 4 / 1000000" by code_simp
  have 6: "mappingCost ex_cf ex_g1d ex_g2 [1, 0] [1, 0] = 6 / 1000000" by code_simp
  have 7: "[0, 0, 0, 0] = QuadraticTerm_mapping (isDirected ex_s1 \<and> isDirected ex_s2) ex_cf4 ex_s1 ex_s2 [0] [0]"
    by code_simp
  have 8: "[0, 0, 0, 0] = NodeCostMatrix ex_cf4 ex_s1 ex_s2" by code_simp
  have 9: "0 = linearCost_mapping (NodeCostMatrix ex_cf4 ex_s1 ex_s2) [0] [0] (Size ex_s1) (Size ex_s2)"
    by code_simp
  have 10: "getCost \<lparr>Xk = [1, 0, 0, 0], XkD = [0, 0, 0, 0], bkp1 = [1, 0, 0, 0], Cmat = [0, 0, 0, 0],
        Lterm = 0, oldLterm = 0, S = [0, 0], R = [0], k = 0, flag_continue = True\<rparr>
       [0] [0] (Size ex_s1) (Size ex_s2) = 0" by code_simp
  have 11: "mappingCost ex_cf4 ex_s1 ex_s2 [0] [0] = 3" by code_simp
  show ?thesis
    unfolding ex_s_pass ipfp_state.simps
    using 1 2 3 4 5 6 7 8 9 10 11
    by (intro conjI)
qed

section \<open>The list of seeds with the enumeration\<close>

lemma optimal_matchings_distinct: "distinct (optimal_matchings Clsap N lu lv)"
  by (simp add: optimal_matchings_def distinct_n_lists)

lemma optimal_matchings_perm:
  assumes "sigma \<in> set (optimal_matchings Clsap N lu lv)"
  shows "length sigma = N" and "distinct sigma" and "set sigma = {..<N}"
    and "\<And>x. x < N \<Longrightarrow> tight_cell Clsap N lu lv x (sigma ! x)"
proof -
  from assms have nl: "sigma \<in> set (List.n_lists N [0..<N])"
    and em: "equality_matching Clsap N lu lv sigma"
    by (simp_all add: optimal_matchings_def)
  from nl show len: "length sigma = N" by (simp add: set_n_lists)
  from em show d: "distinct sigma" by (simp add: equality_matching_def)
  from nl have sub: "set sigma \<subseteq> {..<N}" by (auto simp: set_n_lists)
  have "card (set sigma) = card {..<N}" using d len by (simp add: distinct_card)
  with sub show "set sigma = {..<N}" by (intro card_subset_eq) simp_all
  from em show "\<And>x. x < N \<Longrightarrow> tight_cell Clsap N lu lv x (sigma ! x)"
    by (simp add: equality_matching_def list_all_iff)
qed

lemma lsap_cost_optimal_matching:
  assumes s: "sigma \<in> set (optimal_matchings Clsap N lu lv)"
  shows "lsap_cost Clsap N sigma = (\<Sum>x<N. lu ! x) + (\<Sum>y<N. lv ! y)"
proof -
  note p = optimal_matchings_perm [OF s]
  have "lsap_cost Clsap N sigma = (\<Sum>x\<leftarrow>[0..<N]. lu ! x + lv ! (sigma ! x))"
    unfolding lsap_cost_def
  proof (rule sum_list_map_cong)
    fix x assume "x \<in> set [0..<N]"
    then have "tight_cell Clsap N lu lv x (sigma ! x)" by (simp add: p(4))
    then show "Clsap ! sub2ind x (sigma ! x) N = lu ! x + lv ! (sigma ! x)"
      by (simp add: tight_cell_def)
  qed
  also have "\<dots> = (\<Sum>x\<leftarrow>[0..<N]. lu ! x) + (\<Sum>x\<leftarrow>[0..<N]. lv ! (sigma ! x))"
    by (simp add: sum_list_addf)
  also have "(\<Sum>x\<leftarrow>[0..<N]. lv ! (sigma ! x)) = (\<Sum>y\<leftarrow>sigma. lv ! y)"
    using sum_list_nth_conv [of "\<lambda>y. lv ! y" sigma] by (simp add: p(1))
  also have "\<dots> = (\<Sum>y<N. lv ! y)"
    by (simp add: sum_list_distinct_conv_sum_set [OF p(2)] p(3))
  finally show ?thesis by (simp add: sum_list_upt_conv)
qed

lemma enumPerfectMatchings_facts:
  assumes K: "1 \<le> K"
  shows "length (enumPerfectMatchings Clsap N rho lu lv K) \<le> nat K"
    and "distinct (enumPerfectMatchings Clsap N rho lu lv K)"
    and "set (enumPerfectMatchings Clsap N rho lu lv K) \<subseteq> set (optimal_matchings Clsap N lu lv)"
    and "length (enumPerfectMatchings Clsap N rho lu lv K) < nat K \<Longrightarrow>
           enumPerfectMatchings Clsap N rho lu lv K = optimal_matchings Clsap N lu lv"
proof -
  from K have e: "enumPerfectMatchings Clsap N rho lu lv K = take (nat K) (optimal_matchings Clsap N lu lv)"
    by (simp add: enumPerfectMatchings_def)
  show "length (enumPerfectMatchings Clsap N rho lu lv K) \<le> nat K" by (simp add: e)
  show "distinct (enumPerfectMatchings Clsap N rho lu lv K)"
    by (simp add: e optimal_matchings_distinct)
  show "set (enumPerfectMatchings Clsap N rho lu lv K) \<subseteq> set (optimal_matchings Clsap N lu lv)"
    unfolding e by (rule set_take_subset)
  show "enumPerfectMatchings Clsap N rho lu lv K = optimal_matchings Clsap N lu lv"
    if "length (enumPerfectMatchings Clsap N rho lu lv K) < nat K"
    using that unfolding e by simp
qed


lemma ex_Clsap:
  "computeCostMatrixLSAP (computeCostMatrix ex_solver ex_cf ex_g1 ex_g2) (Size ex_g1) (Size ex_g2) =
   [2 / 1000000, 3 / 1000000, 1 / 1000000, - 1,
    3 / 1000000, 2 / 1000000, - 1, 1 / 1000000,
    2 / 1000000, - 1, 0, 0,
    - 1, 2 / 1000000, 0, 0]"
  unfolding ex_computeCostMatrix ex_sizes by code_simp

lemma ex_lsap_duals:
  "lsap_lu (Size ex_g1) (Size ex_g2) [1 / 1000000, 1 / 1000000, 0] = [1 / 1000000, 1 / 1000000, 0, 0]"
  "lsap_lv (Size ex_g1) (Size ex_g2) [1 / 1000000, 1 / 1000000, 0] = [1 / 1000000, 1 / 1000000, 0, 0]"
  unfolding ex_sizes by code_simp+

lemma ex_optimal_matchings:
  "optimal_matchings (computeCostMatrixLSAP (computeCostMatrix ex_solver ex_cf ex_g1 ex_g2) (Size ex_g1) (Size ex_g2))
     (Size ex_g1 + Size ex_g2)
     (lsap_lu (Size ex_g1) (Size ex_g2) [1 / 1000000, 1 / 1000000, 0])
     (lsap_lv (Size ex_g1) (Size ex_g2) [1 / 1000000, 1 / 1000000, 0])
   = [[0, 1, 3, 2], [0, 1, 2, 3]]"
  by (simp only: ex_Clsap ex_lsap_duals) code_simp

lemma ex_rhoperm: "rhoperm (Size ex_g1) (Size ex_g2) [0, 1] [0, 1] = [0, 1, 2, 3]"
  unfolding ex_sizes by code_simp

lemma ex_initial_optimal:
  "case ex_solver (computeCostMatrix ex_solver ex_cf ex_g1 ex_g2) (Size ex_g1 + 1) (Size ex_g2 + 1) of
     (G1_to_G2, G2_to_G1, u, v) \<Rightarrow>
        rhoperm (Size ex_g1) (Size ex_g2) G1_to_G2 G2_to_G1
          \<in> set (optimal_matchings
                   (computeCostMatrixLSAP (computeCostMatrix ex_solver ex_cf ex_g1 ex_g2) (Size ex_g1) (Size ex_g2))
                   (Size ex_g1 + Size ex_g2)
                   (lsap_lu (Size ex_g1) (Size ex_g2) u) (lsap_lv (Size ex_g1) (Size ex_g2) v))"
  by (simp only: ex_star_solution prod.case ex_optimal_matchings ex_rhoperm) simp

lemma getKOptimalMappings_eval:
  assumes "solver C (Size g1 + 1) (Size g2 + 1) = (f, r, u, v)"
    and "rhoperm (Size g1) (Size g2) f r = rho"
    and "optimal_matchings (computeCostMatrixLSAP C (Size g1) (Size g2)) (Size g1 + Size g2)
           (lsap_lu (Size g1) (Size g2) u) (lsap_lv (Size g1) (Size g2) v) = os"
    and "K \<noteq> - 1"
  shows "getKOptimalMappings solver enumPerfectMatchings g1 g2 C K = rho # take (nat K) os"
  using assms(4)
  by (simp only: getKOptimalMappings_def Let_def assms(1) prod.case assms(2)
        enumPerfectMatchings_def assms(3) if_False)

lemma ex_two_seeds:
  "getKOptimalMappings ex_solver enumPerfectMatchings ex_g1 ex_g2
     (computeCostMatrix ex_solver ex_cf ex_g1 ex_g2) 1 = [[0, 1, 2, 3], [0, 1, 3, 2]]"
  using getKOptimalMappings_eval [where solver = ex_solver and K = 1 and ?g1.0 = ex_g1
      and ?g2.0 = ex_g2 and C = "computeCostMatrix ex_solver ex_cf ex_g1 ex_g2",
      OF ex_star_solution ex_rhoperm ex_optimal_matchings]
  by simp

lemma ex_three_seeds:
  "getKOptimalMappings ex_solver enumPerfectMatchings ex_g1 ex_g2
     (computeCostMatrix ex_solver ex_cf ex_g1 ex_g2) 2 = [[0, 1, 2, 3], [0, 1, 3, 2], [0, 1, 2, 3]]"
  using getKOptimalMappings_eval [where solver = ex_solver and K = 2 and ?g1.0 = ex_g1
      and ?g2.0 = ex_g2 and C = "computeCostMatrix ex_solver ex_cf ex_g1 ex_g2",
      OF ex_star_solution ex_rhoperm ex_optimal_matchings]
  by (simp add: numeral_2_eq_2)



end
